theory Spec2Isabelle
  imports Main "HOL-Library.Word"
begin

section \<open>The connection I/O primitives of stream-server.c\<close>

text \<open>
  Source: \<^verbatim>\<open>source/platform/x64/linux/stream-server.c\<close>. The target is x64 Linux:
  \<^verbatim>\<open>int\<close> is a 32-bit word, \<^verbatim>\<open>size_t\<close> and \<^verbatim>\<open>ssize_t\<close> are 64-bit words;
  \<^verbatim>\<open>ssize_t\<close> and \<^verbatim>\<open>int\<close> are read as two's complement with \<open>sint\<close>.
  A pointer is an address or \<open>None\<close> for \<^verbatim>\<open>NULL\<close>.
\<close>

type_synonym addr = nat
type_synonym c_int = "32 word"
type_synonym size_t = "64 word"
type_synonym ssize_t = "64 word"

text \<open>
  \<^verbatim>\<open>typedef struct stream_server_connection { int id; } stream_server_connection_t;\<close>
  (the field \<^verbatim>\<open>id\<close> is written \<open>id_field\<close>: \<open>id\<close> is the identity function of HOL).
\<close>

record stream_server_connection =
  id_field :: c_int

text \<open>The calls of \<^verbatim>\<open>unistd.h\<close> that the primitives make, with their arguments.\<close>

datatype io_call =
    Sys_read c_int addr size_t
  | Sys_write c_int addr size_t
  | Sys_close c_int

text \<open>
  \<^verbatim>\<open>
  size_t stream_server_read(stream_server_connection_t* connection, char* data, size_t max_data_size) {
      if (!connection || !data || (max_data_size < 1)) {
          return 0;
      }
      ssize_t read_bytes = read(connection->id, data, max_data_size);
      if (read_bytes > 0) {
          return (size_t)read_bytes;
      } else {
          return 0;
      }
  }
  \<close>
  The function returns its value together with the calls it made, in order. The
  argument \<open>ret\<close> is what the operating system answers to the \<^verbatim>\<open>read\<close> call, if the
  function makes it.
\<close>

definition stream_server_read ::
  "stream_server_connection option \<Rightarrow> addr option \<Rightarrow> size_t \<Rightarrow> ssize_t \<Rightarrow> size_t \<times> io_call list" where
  "stream_server_read connection data max_data_size ret =
     (case connection of
        None \<Rightarrow> (0, [])
      | Some c \<Rightarrow>
          (case data of
             None \<Rightarrow> (0, [])
           | Some d \<Rightarrow>
               if max_data_size < 1 then (0, [])
               else
                 let read_bytes = ret;
                     calls = [Sys_read (id_field c) d max_data_size]
                 in if 0 < sint read_bytes then (read_bytes, calls) else (0, calls)))"

text \<open>
  \<^verbatim>\<open>
  void stream_server_write(stream_server_connection_t* connection, const char* data, size_t data_size) {
      if (!connection || !data || (data_size < 1)) {
          return;
      }
      write(connection->id, data, data_size);
  }
  \<close>
  The function is \<^verbatim>\<open>void\<close>: the model returns the calls, and whether the function
  comes back to its caller. The operating system answers \<^verbatim>\<open>write\<close> on a socket with
  a value (the number of bytes written, or a negative value for an error), which the
  source discards, or, when the peer has closed the connection, with the signal
  \<^verbatim>\<open>SIGPIPE\<close>. The source calls plain \<^verbatim>\<open>write\<close> and nowhere changes what the
  process does with that signal: where the program that uses the library has not done so
  either, the signal ends the process. \<open>Sigpipe\<close> is that answer.
\<close>

datatype io_answer = Returns ssize_t | Sigpipe

datatype outcome = Comes_back | Process_ends

definition stream_server_write ::
  "stream_server_connection option \<Rightarrow> addr option \<Rightarrow> size_t \<Rightarrow> io_answer
     \<Rightarrow> io_call list \<times> outcome" where
  "stream_server_write connection data data_size answer =
     (case connection of
        None \<Rightarrow> ([], Comes_back)
      | Some c \<Rightarrow>
          (case data of
             None \<Rightarrow> ([], Comes_back)
           | Some d \<Rightarrow>
               if data_size < 1 then ([], Comes_back)
               else ([Sys_write (id_field c) d data_size],
                     case answer of Returns ret \<Rightarrow> Comes_back | Sigpipe \<Rightarrow> Process_ends)))"

text \<open>
  \<^verbatim>\<open>
  void stream_server_close(stream_server_connection_t* connection) {
      if (!connection) {
          return;
      }
      close(connection->id);
  }
  \<close>
\<close>

definition stream_server_close :: "stream_server_connection option \<Rightarrow> io_call list" where
  "stream_server_close connection =
     (case connection of
        None \<Rightarrow> []
      | Some c \<Rightarrow> [Sys_close (id_field c)])"

section \<open>Calls and thread programs\<close>

text \<open>
  \<^verbatim>\<open>
  typedef struct stream_server {
      pthread_t* thread_pool;
      pthread_mutex_t mutex;
      pthread_cond_t condition_var;
      dynamic_queue_t* pool_queue;
      stream_server_connection_handler_t connection_handler;
      void* connection_handler_context;
      int socket_fd;
  } stream_server_t;
  \<close>
  The record holds the fields that the operations read as values. The thread pool, the
  mutex, the condition variable and the queue are the shared state \<open>sys\<close> below.
\<close>

record stream_server =
  connection_handler :: nat
  connection_handler_context :: nat
  socket_fd :: c_int

text \<open>
  What a thread does is a sequence of calls to the outside of the function: the C
  library, the POSIX threads, the queue, the handler. A \<open>call\<close> names one with its
  arguments. \<open>Local\<close> stands for a test of local variables at the entry of a function
  or of a loop, \<open>Null_dereference\<close> for a store through a null pointer, \<open>E\<close> for the
  logging macro and \<open>Return\<close> for the return to the caller.
\<close>

datatype alloc = Server_struct | Thread_array size_t | Connection_struct

datatype call =
    Local
  | Calloc alloc
  | Free addr
  | Store_id addr c_int
  | Null_dereference
  | Dynamic_queue_create
  | Dynamic_queue_enqueue addr
  | Dynamic_queue_dequeue
  | Pthread_mutex_init
  | Pthread_cond_init
  | Pthread_create nat
  | Pthread_mutex_lock
  | Pthread_mutex_unlock
  | Pthread_cond_wait
  | Pthread_cond_signal
  | Connection_handler stream_server addr nat
  | Socket
  | Setsockopt c_int
  | Bind c_int "16 word"
  | Listen c_int c_int
  | Accept c_int
  | E string
  | Exit c_int
  | Return

text \<open>
  The answer of a call, and what the thread does with it: \<open>Next\<close> discards the answer,
  \<open>On_int\<close> and \<open>On_ptr\<close> bind it to a local variable, \<open>Stop\<close> is for a call that
  does not come back into the function.
\<close>

datatype answer = No_answer | Int_answer c_int | Ptr_answer "addr option"

datatype 'pc cont = Next 'pc | On_int "c_int \<Rightarrow> 'pc" | On_ptr "addr option \<Rightarrow> 'pc" | Stop

datatype 'pc resumed = Goes 'pc | Ends | Stuck

fun resume :: "'pc cont \<Rightarrow> answer \<Rightarrow> 'pc resumed" where
  "resume (Next pc) a = Goes pc"
| "resume (On_int k) (Int_answer x) = Goes (k x)"
| "resume (On_ptr k) (Ptr_answer p) = Goes (k p)"
| "resume Stop a = Ends"
| "resume (On_int k) a = Stuck"
| "resume (On_ptr k) a = Stuck"

text \<open>
  \<^verbatim>\<open>
  #define CHECK_IF_INVALID(x, msg) \
      do {                         \
          if ((x) < 0) {           \
              E(msg);              \
              exit(-1);            \
          }                        \
      } while (0)
  \<close>
  The macro chooses between two program points: the one that logs and exits, and the
  statement after the macro.
\<close>

definition CHECK_IF_INVALID :: "c_int \<Rightarrow> 'pc \<Rightarrow> 'pc \<Rightarrow> 'pc" where
  "CHECK_IF_INVALID x invalid valid = (if sint x < 0 then invalid else valid)"

subsection \<open>The worker: \<open>thread_pool_handler\<close>\<close>

text \<open>
  \<^verbatim>\<open>
  64 static void* thread_pool_handler(void* context) {
  65     stream_server_t* server = (stream_server_t*)context;
  66     while (true) {
  67         pthread_mutex_lock(&server->mutex);
  68         stream_server_connection_t* connection = dynamic_queue_dequeue(server->pool_queue);
  69         if (!connection) {
  70             pthread_cond_wait(&server->condition_var, &server->mutex);
  71             connection = dynamic_queue_dequeue(server->pool_queue);
  72         }
  73         pthread_mutex_unlock(&server->mutex);
  74         if (connection) {
  75             server->connection_handler(server, connection, server->connection_handler_context);
  76             free(connection);
  77         }
  78     }
  79 }
  \<close>
  A program point is named by the line of the call it is about to make, and carries the
  local variable \<^verbatim>\<open>connection\<close> where it is live. A thread program gives, for each
  program point, the call made there and the program point that follows, given the
  answer. The tests of lines 69 and 74 are part of what follows the calls before them;
  from the last statement of the loop body the program goes back to line 67.
\<close>

datatype wpc = L67 | L68 | L70 | L71 | L73 "addr option" | L75 addr | L76 addr

fun thread_pool_handler :: "stream_server \<Rightarrow> wpc \<Rightarrow> call \<times> wpc cont" where
  "thread_pool_handler server L67 = (Pthread_mutex_lock, Next L68)"
| "thread_pool_handler server L68 =
     (Dynamic_queue_dequeue,
      On_ptr (\<lambda>connection. if connection = None then L70 else L73 connection))"
| "thread_pool_handler server L70 = (Pthread_cond_wait, Next L71)"
| "thread_pool_handler server L71 = (Dynamic_queue_dequeue, On_ptr (\<lambda>connection. L73 connection))"
| "thread_pool_handler server (L73 connection) =
     (Pthread_mutex_unlock, Next (case connection of None \<Rightarrow> L67 | Some c \<Rightarrow> L75 c))"
| "thread_pool_handler server (L75 c) =
     (Connection_handler server c (connection_handler_context server), Next (L76 c))"
| "thread_pool_handler server (L76 c) = (Free c, Next L67)"

subsection \<open>The acceptor: \<open>stream_server_loop\<close>\<close>

text \<open>
  \<^verbatim>\<open>
  146 void stream_server_loop(stream_server_t* server) {
  147     if (!server) {
  148         return;
  149     }
  150     int connection_fd = accept(server->socket_fd, (struct sockaddr*)NULL, NULL);
  151     CHECK_IF_INVALID(connection_fd, "Could not accept a connection");
  152     stream_server_connection_t* connection = calloc(1, sizeof(stream_server_connection_t));
  153     connection->id = connection_fd;
  154     pthread_mutex_lock(&server->mutex);
  155     dynamic_queue_enqueue(server->pool_queue, connection);
  156     pthread_cond_signal(&server->condition_var);
  157     pthread_mutex_unlock(&server->mutex);
  158 }
  \<close>
  The source does not test the pointer that \<^verbatim>\<open>calloc\<close> returns at line 152: with a
  null pointer the store of line 153 goes through \<^verbatim>\<open>NULL\<close>.
\<close>

datatype lpc =
    L147 "stream_server option"
  | L148
  | L150 stream_server
  | L151_E
  | L151_exit
  | L152 c_int
  | L153 "addr option" c_int
  | L154 addr
  | L155 addr
  | L156
  | L157
  | L158

fun stream_server_loop :: "lpc \<Rightarrow> call \<times> lpc cont" where
  "stream_server_loop (L147 server) =
     (Local, Next (case server of None \<Rightarrow> L148 | Some s \<Rightarrow> L150 s))"
| "stream_server_loop L148 = (Return, Stop)"
| "stream_server_loop (L150 server) =
     (Accept (socket_fd server),
      On_int (\<lambda>connection_fd. CHECK_IF_INVALID connection_fd L151_E (L152 connection_fd)))"
| "stream_server_loop L151_E = (E ''Could not accept a connection'', Next L151_exit)"
| "stream_server_loop L151_exit = (Exit (- 1), Stop)"
| "stream_server_loop (L152 connection_fd) =
     (Calloc Connection_struct, On_ptr (\<lambda>connection. L153 connection connection_fd))"
| "stream_server_loop (L153 connection connection_fd) =
     (case connection of
        None \<Rightarrow> (Null_dereference, Stop)
      | Some c \<Rightarrow> (Store_id c connection_fd, Next (L154 c)))"
| "stream_server_loop (L154 c) = (Pthread_mutex_lock, Next (L155 c))"
| "stream_server_loop (L155 c) = (Dynamic_queue_enqueue c, Next L156)"
| "stream_server_loop L156 = (Pthread_cond_signal, Next L157)"
| "stream_server_loop L157 = (Pthread_mutex_unlock, Next L158)"
| "stream_server_loop L158 = (Return, Stop)"

subsection \<open>The initialization: \<open>stream_server_create\<close>\<close>

text \<open>
  \<^verbatim>\<open>
   81 stream_server_t* stream_server_create(uint16_t port,
   82                                       int max_waiting_connections,
   83                                       size_t thread_pool_size,
   84                                       stream_server_connection_handler_t connection_handler,
   85                                       void* connection_handler_context) {
   86     stream_server_t* server = calloc(1, sizeof(stream_server_t));
   87     if (!server) {
   88         return NULL;
   89     }
   90     server->connection_handler = connection_handler;
   91     server->connection_handler_context = connection_handler_context;
   92     server->pool_queue = dynamic_queue_create();
   93     pthread_mutex_init(&server->mutex, NULL);
   94     pthread_cond_init(&server->condition_var, NULL);
   95     server->thread_pool = calloc(thread_pool_size, sizeof(pthread_t));
   96     for (size_t i = 0; i < thread_pool_size; i++) {
   97         pthread_create(server->thread_pool + i, NULL, thread_pool_handler, server);
   98     }
   99
  100     server->socket_fd = socket(AF_INET, SOCK_STREAM, 0);
  101     CHECK_IF_INVALID(server->socket_fd, "Could not create a new socket");
  102     int true_value = 1;
  103     int status = setsockopt(server->socket_fd, SOL_SOCKET, SO_REUSEADDR, &true_value, sizeof(int));
  104     CHECK_IF_INVALID(status, "Could not set socket options");
  105
  106     struct sockaddr_in serv_addr;
  107     memset(&serv_addr, '0', sizeof(serv_addr));
  108     serv_addr.sin_family = AF_INET;
  109     serv_addr.sin_addr.s_addr = htonl(INADDR_ANY);
  110     serv_addr.sin_port = htons(port);
  111
  112     status = bind(server->socket_fd, (struct sockaddr*)&serv_addr, sizeof(serv_addr));
  113     CHECK_IF_INVALID(status, "Could not bind to port");
  114
  115     status = listen(server->socket_fd, max_waiting_connections);
  116     CHECK_IF_INVALID(status, "Could not listen");
  117     return server;
  118 }
  \<close>
  The stores of lines 90 and 91 go into the fresh structure before any other thread
  exists: \<open>server_fields\<close> is the structure after them, as a worker reads it (the
  field \<^verbatim>\<open>socket_fd\<close>, which no worker reads, is written at line 100). The
  source tests the pointer of line 86 and not the one of line 95; \<^verbatim>\<open>pthread_create\<close>
  stores the thread's identifier through its first argument, which is null when the
  allocation of line 95 failed. The source discards what \<^verbatim>\<open>pthread_create\<close>,
  \<^verbatim>\<open>pthread_mutex_init\<close> and \<^verbatim>\<open>pthread_cond_init\<close> return.
\<close>

record create_args =
  port :: "16 word"
  max_waiting_connections :: c_int
  thread_pool_size :: size_t
  handler :: nat
  handler_context :: nat

definition server_fields :: "create_args \<Rightarrow> stream_server" where
  "server_fields args =
     \<lparr>connection_handler = handler args,
      connection_handler_context = handler_context args,
      socket_fd = 0\<rparr>"

datatype cpc =
    C86
  | C88
  | C92
  | C93
  | C94
  | C95
  | C96 "addr option" size_t
  | C97 "addr option" size_t
  | C100
  | C101_E
  | C103 c_int
  | C104_E
  | C112 c_int
  | C113_E
  | C115 c_int
  | C116_E
  | C117 c_int
  | C_exit

fun stream_server_create :: "create_args \<Rightarrow> cpc \<Rightarrow> call \<times> cpc cont" where
  "stream_server_create args C86 =
     (Calloc Server_struct, On_ptr (\<lambda>server. if server = None then C88 else C92))"
| "stream_server_create args C88 = (Return, Stop)"
| "stream_server_create args C92 = (Dynamic_queue_create, Next C93)"
| "stream_server_create args C93 = (Pthread_mutex_init, Next C94)"
| "stream_server_create args C94 = (Pthread_cond_init, Next C95)"
| "stream_server_create args C95 =
     (Calloc (Thread_array (thread_pool_size args)), On_ptr (\<lambda>thread_pool. C96 thread_pool 0))"
| "stream_server_create args (C96 thread_pool i) =
     (Local, Next (if i < thread_pool_size args then C97 thread_pool i else C100))"
| "stream_server_create args (C97 thread_pool i) =
     (case thread_pool of
        None \<Rightarrow> (Null_dereference, Stop)
      | Some a \<Rightarrow> (Pthread_create (unat i), Next (C96 thread_pool (i + 1))))"
| "stream_server_create args C100 =
     (Socket, On_int (\<lambda>fd. CHECK_IF_INVALID fd C101_E (C103 fd)))"
| "stream_server_create args C101_E = (E ''Could not create a new socket'', Next C_exit)"
| "stream_server_create args (C103 fd) =
     (Setsockopt fd, On_int (\<lambda>status. CHECK_IF_INVALID status C104_E (C112 fd)))"
| "stream_server_create args C104_E = (E ''Could not set socket options'', Next C_exit)"
| "stream_server_create args (C112 fd) =
     (Bind fd (port args), On_int (\<lambda>status. CHECK_IF_INVALID status C113_E (C115 fd)))"
| "stream_server_create args C113_E = (E ''Could not bind to port'', Next C_exit)"
| "stream_server_create args (C115 fd) =
     (Listen fd (max_waiting_connections args),
      On_int (\<lambda>status. CHECK_IF_INVALID status C116_E (C117 fd)))"
| "stream_server_create args C116_E = (E ''Could not listen'', Next C_exit)"
| "stream_server_create args (C117 fd) = (Return, Stop)"
| "stream_server_create args C_exit = (Exit (- 1), Stop)"

text \<open>What \<open>stream_server_create\<close> returns at its two \<^verbatim>\<open>return\<close> statements.\<close>

fun create_result :: "create_args \<Rightarrow> cpc \<Rightarrow> stream_server option" where
  "create_result args (C117 fd) = Some ((server_fields args)\<lparr>socket_fd := fd\<rparr>)"
| "create_result args pc = None"

subsection \<open>One thread on its own\<close>

text \<open>
  \<open>run_local\<close> runs a thread program from a program point, with the answers of its
  calls given in order. It returns the calls made and where the thread is then: at a
  program point, past a call that does not come back, or stuck on an answer of the
  wrong kind.
\<close>

fun run_local :: "('pc \<Rightarrow> call \<times> 'pc cont) \<Rightarrow> 'pc \<Rightarrow> answer list \<Rightarrow> call list \<times> 'pc resumed" where
  "run_local prog pc [] = ([], Goes pc)"
| "run_local prog pc (a # as) =
     (case resume (snd (prog pc)) a of
        Goes pc' \<Rightarrow> (case run_local prog pc' as of (cs, r) \<Rightarrow> (fst (prog pc) # cs, r))
      | Ends \<Rightarrow> ([fst (prog pc)], Ends)
      | Stuck \<Rightarrow> ([fst (prog pc)], Stuck))"

section \<open>The threads together\<close>

subsection \<open>The shared state\<close>

text \<open>
  The threads of the process are the main thread, which runs \<open>stream_server_create\<close>
  and then the caller's calls of \<open>stream_server_loop\<close>, and the workers of the pool,
  numbered in the order of their creation. A thread is at a program point, or inside
  \<^verbatim>\<open>pthread_cond_wait\<close> (blocked on the condition variable, or woken and waiting
  for the mutex), or inside the handler, or finished.
\<close>

datatype tid = Main | Pool nat

datatype 'pc status = At 'pc | Blocked 'pc | Woken 'pc | In_handler 'pc | Finished

datatype main_pc =
    In_create cpc
  | In_caller "stream_server option"
  | In_loop "stream_server option" lpc

text \<open>
  Modelled from the spec: the queue of \<^verbatim>\<open>dynamic-queue.h\<close>, which is not under src/
  (\<^verbatim>\<open>dynamic_queue_create\<close>, \<^verbatim>\<open>dynamic_queue_enqueue\<close>, \<^verbatim>\<open>dynamic_queue_dequeue\<close>).
  The spec describes it as an opaque FIFO with \<open>create()\<close>, \<open>enqueue(item)\<close> and
  \<open>dequeue() \<rightarrow> item-or-empty\<close>, with no synchronization of its own: a list, with
  \<open>enqueue\<close> at the end and \<open>dequeue\<close> at the front, \<open>None\<close> (a null pointer) on the
  empty list.
\<close>

definition dynamic_queue_create :: "addr list" where
  "dynamic_queue_create = []"

definition dynamic_queue_enqueue :: "addr list \<Rightarrow> addr \<Rightarrow> addr list" where
  "dynamic_queue_enqueue q c = q @ [c]"

fun dynamic_queue_dequeue :: "addr list \<Rightarrow> addr option \<times> addr list" where
  "dynamic_queue_dequeue [] = (None, [])"
| "dynamic_queue_dequeue (c # q) = (Some c, q)"

text \<open>
  The shared state: the queue, the owner of the mutex, the workers, the live connection
  structures, the open descriptors, and whether the process has ended. \<open>misuse\<close>
  records a queue operation, an unlock or a wait by a thread that does not hold the
  mutex, and a store to or a release of a structure that is not live. The last four
  fields are the history: the handles enqueued, the handles dequeued with the thread
  that did it, the handler invocations with the thread that made them, and the values
  that the calls of \<^verbatim>\<open>pthread_create\<close> returned, each in order.
\<close>

record sys =
  pool_queue :: "addr list"
  mutex :: "tid option"
  workers :: "wpc status list"
  main :: "main_pc status"
  connections :: "addr \<Rightarrow> stream_server_connection option"
  open_fds :: "c_int set"
  terminated :: bool
  misuse :: bool
  enqueued :: "addr list"
  dequeued :: "(tid \<times> addr) list"
  dispatched :: "(tid \<times> addr) list"
  spawned :: "c_int list"

text \<open>
  What the operating system contributes to a call: the integer that a system call or
  \<^verbatim>\<open>pthread_create\<close> returns, the pointer \<^verbatim>\<open>calloc\<close> returns, and the blocked
  worker that a signal wakes.
\<close>

record env =
  env_int :: c_int
  env_ptr :: "addr option"
  env_wake :: nat

subsection \<open>What the calls do\<close>

datatype effect = Answer answer | Begins_wait | Begins_handler | Exits

definition owned :: "tid \<Rightarrow> sys \<Rightarrow> sys" where
  "owned t s = (if mutex s = Some t then s else s\<lparr>misuse := True\<rparr>)"

definition live :: "addr \<Rightarrow> sys \<Rightarrow> sys" where
  "live c s = (if connections s c = None then s\<lparr>misuse := True\<rparr> else s)"

fun is_blocked :: "'pc status \<Rightarrow> bool" where
  "is_blocked (Blocked pc) = True"
| "is_blocked st = False"

fun wake :: "'pc status \<Rightarrow> 'pc status" where
  "wake (Blocked pc) = Woken pc"
| "wake st = st"

text \<open>
  A descriptor that \<^verbatim>\<open>socket\<close> or \<^verbatim>\<open>accept\<close> returns is negative (the call failed) or
  was not open, and is open afterwards.
\<close>

definition new_fd :: "c_int \<Rightarrow> sys \<Rightarrow> (effect \<times> sys) option" where
  "new_fd fd s =
     (if sint fd < 0 then Some (Answer (Int_answer fd), s)
      else if fd \<in> open_fds s then None
      else Some (Answer (Int_answer fd), s\<lparr>open_fds := insert fd (open_fds s)\<rparr>))"

text \<open>
  \<open>perform t c e s\<close> is the call \<open>c\<close> made by thread \<open>t\<close> in state \<open>s\<close>: \<open>None\<close> when
  the call cannot proceed there (the mutex is taken, or the environment's contribution
  is not one the operating system can make), otherwise what the thread gets and the new
  state.
  \<^item> \<^verbatim>\<open>pthread_mutex_lock\<close> proceeds when the mutex is free.
  \<^item> \<^verbatim>\<open>pthread_cond_wait\<close> releases the mutex and blocks the thread; the thread
    comes back with the mutex, after a signal or a spurious wakeup (see \<open>step\<close>).
  \<^item> \<^verbatim>\<open>pthread_cond_signal\<close> wakes one blocked worker if there is one.
  \<^item> \<^verbatim>\<open>pthread_create\<close> returns 0 and starts a worker at the first statement of
    \<open>thread_pool_handler\<close>, or returns an error number and starts none; the source
    discards the value.
  \<^item> \<^verbatim>\<open>calloc\<close> of a connection returns null or a structure that was not live, zeroed.
  \<^item> \<^verbatim>\<open>exit\<close> and a store through a null pointer end the process.
  \<^item> The call of the handler is recorded in \<open>dispatched\<close>; the handler then runs
    (see \<open>step\<close>).
\<close>

fun perform :: "tid \<Rightarrow> call \<Rightarrow> env \<Rightarrow> sys \<Rightarrow> (effect \<times> sys) option" where
  "perform t Local e s = Some (Answer No_answer, s)"
| "perform t (Calloc Connection_struct) e s =
     (case env_ptr e of
        None \<Rightarrow> Some (Answer (Ptr_answer None), s)
      | Some c \<Rightarrow>
          if connections s c = None
          then Some (Answer (Ptr_answer (Some c)),
                     s\<lparr>connections := (connections s)(c := Some \<lparr>id_field = 0\<rparr>)\<rparr>)
          else None)"
| "perform t (Calloc Server_struct) e s = Some (Answer (Ptr_answer (env_ptr e)), s)"
| "perform t (Calloc (Thread_array n)) e s = Some (Answer (Ptr_answer (env_ptr e)), s)"
| "perform t (Free c) e s =
     Some (Answer No_answer, (live c s)\<lparr>connections := (connections s)(c := None)\<rparr>)"
| "perform t (Store_id c fd) e s =
     Some (Answer No_answer, (live c s)\<lparr>connections := (connections s)(c := Some \<lparr>id_field = fd\<rparr>)\<rparr>)"
| "perform t Null_dereference e s = Some (Exits, s\<lparr>terminated := True\<rparr>)"
| "perform t Dynamic_queue_create e s =
     Some (Answer No_answer, s\<lparr>pool_queue := dynamic_queue_create\<rparr>)"
| "perform t (Dynamic_queue_enqueue c) e s =
     Some (Answer No_answer,
           (owned t s)\<lparr>pool_queue := dynamic_queue_enqueue (pool_queue s) c,
                       enqueued := enqueued s @ [c]\<rparr>)"
| "perform t Dynamic_queue_dequeue e s =
     (case dynamic_queue_dequeue (pool_queue s) of
        (None, q) \<Rightarrow> Some (Answer (Ptr_answer None), (owned t s)\<lparr>pool_queue := q\<rparr>)
      | (Some c, q) \<Rightarrow>
          Some (Answer (Ptr_answer (Some c)),
                (owned t s)\<lparr>pool_queue := q, dequeued := dequeued s @ [(t, c)]\<rparr>))"
| "perform t Pthread_mutex_init e s = Some (Answer No_answer, s\<lparr>mutex := None\<rparr>)"
| "perform t Pthread_cond_init e s = Some (Answer No_answer, s)"
| "perform t (Pthread_create i) e s =
     (if env_int e = 0
      then Some (Answer (Int_answer 0),
                 s\<lparr>workers := workers s @ [At L67], spawned := spawned s @ [0]\<rparr>)
      else Some (Answer (Int_answer (env_int e)), s\<lparr>spawned := spawned s @ [env_int e]\<rparr>))"
| "perform t Pthread_mutex_lock e s =
     (if mutex s = None then Some (Answer No_answer, s\<lparr>mutex := Some t\<rparr>) else None)"
| "perform t Pthread_mutex_unlock e s = Some (Answer No_answer, (owned t s)\<lparr>mutex := None\<rparr>)"
| "perform t Pthread_cond_wait e s = Some (Begins_wait, (owned t s)\<lparr>mutex := None\<rparr>)"
| "perform t Pthread_cond_signal e s =
     (if list_ex is_blocked (workers s)
      then (if env_wake e < length (workers s) \<and> is_blocked (workers s ! env_wake e)
            then Some (Answer No_answer,
                       s\<lparr>workers := (workers s)[env_wake e := wake (workers s ! env_wake e)]\<rparr>)
            else None)
      else Some (Answer No_answer, s))"
| "perform t (Connection_handler server c context) e s =
     Some (Begins_handler, s\<lparr>dispatched := dispatched s @ [(t, c)]\<rparr>)"
| "perform t Socket e s = new_fd (env_int e) s"
| "perform t (Accept fd) e s = new_fd (env_int e) s"
| "perform t (Setsockopt fd) e s = Some (Answer (Int_answer (env_int e)), s)"
| "perform t (Bind fd p) e s = Some (Answer (Int_answer (env_int e)), s)"
| "perform t (Listen fd n) e s = Some (Answer (Int_answer (env_int e)), s)"
| "perform t (E msg) e s = Some (Answer No_answer, s)"
| "perform t (Exit code) e s = Some (Exits, s\<lparr>terminated := True\<rparr>)"
| "perform t Return e s = Some (Answer No_answer, s)"

subsection \<open>The steps of a thread\<close>

text \<open>
  A thread at a program point makes the call of its program there. A woken thread takes
  the mutex when it is free and goes on after \<^verbatim>\<open>pthread_cond_wait\<close>. A blocked thread
  and a thread inside the handler do not move by themselves.
\<close>

definition thread_step ::
  "('pc \<Rightarrow> call \<times> 'pc cont) \<Rightarrow> tid \<Rightarrow> env \<Rightarrow> 'pc status \<Rightarrow> sys \<Rightarrow> ('pc status \<times> sys) option" where
  "thread_step prog t e st s =
     (case st of
        At pc \<Rightarrow>
          (case perform t (fst (prog pc)) e s of
             None \<Rightarrow> None
           | Some (Answer a, s') \<Rightarrow>
               (case resume (snd (prog pc)) a of
                  Goes pc' \<Rightarrow> Some (At pc', s')
                | Ends \<Rightarrow> Some (Finished, s')
                | Stuck \<Rightarrow> None)
           | Some (Begins_wait, s') \<Rightarrow> Some (Blocked pc, s')
           | Some (Begins_handler, s') \<Rightarrow> Some (In_handler pc, s')
           | Some (Exits, s') \<Rightarrow> Some (Finished, s'))
      | Woken pc \<Rightarrow>
          (if mutex s = None
           then (case resume (snd (prog pc)) No_answer of
                   Goes pc' \<Rightarrow> Some (At pc', s\<lparr>mutex := Some t\<rparr>)
                 | Ends \<Rightarrow> None
                 | Stuck \<Rightarrow> None)
           else None)
      | Blocked pc \<Rightarrow> None
      | In_handler pc \<Rightarrow> None
      | Finished \<Rightarrow> None)"

text \<open>
  The main thread runs \<open>stream_server_create\<close>; when that returns, the caller holds
  the result and calls \<open>stream_server_loop\<close> with it, each time the main thread is
  scheduled in the caller, again and again.
\<close>

fun main_program :: "create_args \<Rightarrow> main_pc \<Rightarrow> call \<times> main_pc cont" where
  "main_program args (In_create pc) =
     (if fst (stream_server_create args pc) = Return
      then (Return, Next (In_caller (create_result args pc)))
      else (fst (stream_server_create args pc),
            map_cont In_create (snd (stream_server_create args pc))))"
| "main_program args (In_caller server) = (Local, Next (In_loop server (L147 server)))"
| "main_program args (In_loop server pc) =
     (if fst (stream_server_loop pc) = Return
      then (Return, Next (In_caller server))
      else (fst (stream_server_loop pc),
            map_cont (In_loop server) (snd (stream_server_loop pc))))"

subsection \<open>The handler\<close>

text \<open>
  The handler is the caller's code. The model lets it use its connection through the
  three primitives, any number of times and with any arguments: \<open>api_call\<close> is one such
  use that comes back, with the value that the operating system returns where there is
  one. Of the calls it makes, \<^verbatim>\<open>close\<close> changes the shared state.
\<close>

datatype api_call =
    Api_read "addr option" size_t ssize_t
  | Api_write "addr option" size_t ssize_t
  | Api_close

fun api_io :: "stream_server_connection option \<Rightarrow> api_call \<Rightarrow> io_call list" where
  "api_io connection (Api_read data n ret) = snd (stream_server_read connection data n ret)"
| "api_io connection (Api_write data n ret) =
     fst (stream_server_write connection data n (Returns ret))"
| "api_io connection Api_close = stream_server_close connection"

fun io_effect :: "c_int set \<Rightarrow> io_call \<Rightarrow> c_int set" where
  "io_effect fds (Sys_close fd) = fds - {fd}"
| "io_effect fds (Sys_read fd d n) = fds"
| "io_effect fds (Sys_write fd d n) = fds"

definition handler_io :: "stream_server_connection option \<Rightarrow> api_call list \<Rightarrow> io_call list" where
  "handler_io connection uses = concat (map (api_io connection) uses)"

fun handler_connection :: "call \<Rightarrow> addr option" where
  "handler_connection (Connection_handler server c context) = Some c"
| "handler_connection other = None"

text \<open>
  When the handler returns, the thread goes on after the call; the descriptors that the
  handler closed are closed.
\<close>

definition handler_done ::
  "('pc \<Rightarrow> call \<times> 'pc cont) \<Rightarrow> api_call list \<Rightarrow> 'pc status \<Rightarrow> sys \<Rightarrow> ('pc status \<times> sys) option" where
  "handler_done prog uses st s =
     (case st of
        In_handler pc \<Rightarrow>
          (case handler_connection (fst (prog pc)) of
             None \<Rightarrow> None
           | Some c \<Rightarrow>
               (case resume (snd (prog pc)) No_answer of
                  Goes pc' \<Rightarrow>
                    Some (At pc',
                          s\<lparr>open_fds :=
                              foldl io_effect (open_fds s) (handler_io (connections s c) uses)\<rparr>)
                | Ends \<Rightarrow> None
                | Stuck \<Rightarrow> None))
      | At pc \<Rightarrow> None
      | Blocked pc \<Rightarrow> None
      | Woken pc \<Rightarrow> None
      | Finished \<Rightarrow> None)"

text \<open>
  The handler may also call \<open>stream_server_write\<close> on a connection that the peer has
  closed: when that call does not come back, the process ends inside the handler, after
  the uses that came back.
\<close>

definition handler_killed ::
  "('pc \<Rightarrow> call \<times> 'pc cont) \<Rightarrow> api_call list \<Rightarrow> addr option \<Rightarrow> size_t \<Rightarrow> 'pc status \<Rightarrow> sys
     \<Rightarrow> sys option" where
  "handler_killed prog uses data n st s =
     (case st of
        In_handler pc \<Rightarrow>
          (case handler_connection (fst (prog pc)) of
             None \<Rightarrow> None
           | Some c \<Rightarrow>
               if snd (stream_server_write (connections s c) data n Sigpipe) = Process_ends
               then Some (s\<lparr>open_fds :=
                              foldl io_effect (open_fds s) (handler_io (connections s c) uses),
                            terminated := True\<rparr>)
               else None)
      | At pc \<Rightarrow> None
      | Blocked pc \<Rightarrow> None
      | Woken pc \<Rightarrow> None
      | Finished \<Rightarrow> None)"

subsection \<open>The steps of the process\<close>

text \<open>
  A step of the process is chosen by the scheduler and the environment: a thread makes
  its next move, a blocked worker wakes up without a signal, the handler that runs on a
  worker returns, or the process ends inside it on a write. \<open>step\<close> is \<open>None\<close> when
  the chosen move is not possible in the state. Nothing moves once the process has ended.
\<close>

datatype choice =
    Run tid env
  | Spurious_wakeup nat
  | Handler_returns nat "api_call list"
  | Handler_killed nat "api_call list" "addr option" size_t

definition step :: "create_args \<Rightarrow> sys \<Rightarrow> choice \<Rightarrow> sys option" where
  "step args s ch =
     (if terminated s then None
      else
        (case ch of
           Run Main e \<Rightarrow>
             (case thread_step (main_program args) Main e (main s) s of
                None \<Rightarrow> None
              | Some (st, s') \<Rightarrow> Some (s'\<lparr>main := st\<rparr>))
         | Run (Pool i) e \<Rightarrow>
             (if i < length (workers s)
              then (case thread_step (thread_pool_handler (server_fields args)) (Pool i) e
                           (workers s ! i) s of
                      None \<Rightarrow> None
                    | Some (st, s') \<Rightarrow> Some (s'\<lparr>workers := (workers s')[i := st]\<rparr>))
              else None)
         | Spurious_wakeup i \<Rightarrow>
             (if i < length (workers s) \<and> is_blocked (workers s ! i)
              then Some (s\<lparr>workers := (workers s)[i := wake (workers s ! i)]\<rparr>)
              else None)
         | Handler_returns i uses \<Rightarrow>
             (if i < length (workers s)
              then (case handler_done (thread_pool_handler (server_fields args)) uses
                           (workers s ! i) s of
                      None \<Rightarrow> None
                    | Some (st, s') \<Rightarrow> Some (s'\<lparr>workers := (workers s')[i := st]\<rparr>))
              else None)
         | Handler_killed i uses data n \<Rightarrow>
             (if i < length (workers s)
              then handler_killed (thread_pool_handler (server_fields args)) uses data n
                     (workers s ! i) s
              else None)))"

text \<open>
  The process starts in the main thread, at the first statement of
  \<open>stream_server_create\<close>, with no worker. \<open>run\<close> makes the steps of a schedule in
  order; a state is reachable when some schedule leads to it.
\<close>

definition init :: sys where
  "init =
     \<lparr>pool_queue = [], mutex = None, workers = [], main = At (In_create C86),
      connections = (\<lambda>c. None), open_fds = {}, terminated = False, misuse = False,
      enqueued = [], dequeued = [], dispatched = [], spawned = []\<rparr>"

fun run :: "create_args \<Rightarrow> sys \<Rightarrow> choice list \<Rightarrow> sys option" where
  "run args s [] = Some s"
| "run args s (ch # chs) = (case step args s ch of None \<Rightarrow> None | Some s' \<Rightarrow> run args s' chs)"

definition reachable :: "create_args \<Rightarrow> sys \<Rightarrow> bool" where
  "reachable args s = (\<exists>chs. run args init chs = Some s)"

section \<open>Invariants of the process\<close>

text \<open>
  A worker is at a program point, inside \<^verbatim>\<open>pthread_cond_wait\<close> of line 70, or inside
  the handler called at line 75; it never finishes.
\<close>

fun well_placed :: "wpc status \<Rightarrow> bool" where
  "well_placed (At pc) = True"
| "well_placed (Blocked pc) = (pc = L70)"
| "well_placed (Woken pc) = (pc = L70)"
| "well_placed (In_handler pc) = (case pc of L75 c \<Rightarrow> True | other \<Rightarrow> False)"
| "well_placed Finished = False"

text \<open>
  The number of calls of \<^verbatim>\<open>pthread_create\<close> made, at each program point of
  \<open>stream_server_create\<close>: none before the loop of line 96, \<open>i\<close> at the test of the
  loop and at the call of line 97, and \<open>thread_pool_size\<close> after the loop. There is one
  worker for each call that returned 0.
\<close>

fun creating :: "create_args \<Rightarrow> cpc \<Rightarrow> nat \<Rightarrow> bool" where
  "creating args C86 k = (k = 0)"
| "creating args C88 k = (k = 0)"
| "creating args C92 k = (k = 0)"
| "creating args C93 k = (k = 0)"
| "creating args C94 k = (k = 0)"
| "creating args C95 k = (k = 0)"
| "creating args (C96 p i) k = (k = unat i \<and> i \<le> thread_pool_size args)"
| "creating args (C97 p i) k = (k = unat i \<and> i < thread_pool_size args)"
| "creating args pc k = (k = unat (thread_pool_size args))"

fun pool_at :: "create_args \<Rightarrow> main_pc status \<Rightarrow> nat \<Rightarrow> bool" where
  "pool_at args (At (In_create pc)) k = creating args pc k"
| "pool_at args (At (In_caller server)) k = (server = None \<or> k = unat (thread_pool_size args))"
| "pool_at args (At (In_loop server pc)) k = (server = None \<or> k = unat (thread_pool_size args))"
| "pool_at args Finished k = True"
| "pool_at args st k = False"

definition pool_inv :: "create_args \<Rightarrow> sys \<Rightarrow> bool" where
  "pool_inv args s =
     (length (workers s) \<le> unat (thread_pool_size args)
      \<and> pool_at args (main s) (length (spawned s))
      \<and> length (filter (\<lambda>r. r = 0) (spawned s)) = length (workers s)
      \<and> list_all well_placed (workers s))"

text \<open>
  The program points at which a thread holds the mutex: from after the lock to the
  unlock, the wait excepted.
\<close>

fun holds :: "wpc status \<Rightarrow> bool" where
  "holds (At L68) = True"
| "holds (At L70) = True"
| "holds (At L71) = True"
| "holds (At (L73 c)) = True"
| "holds st = False"

fun main_holds :: "main_pc status \<Rightarrow> bool" where
  "main_holds (At (In_loop server (L155 c))) = True"
| "main_holds (At (In_loop server L156)) = True"
| "main_holds (At (In_loop server L157)) = True"
| "main_holds st = False"

definition mutex_inv :: "sys \<Rightarrow> bool" where
  "mutex_inv s =
     ((\<forall>i < length (workers s). holds (workers s ! i) = (mutex s = Some (Pool i)))
      \<and> (\<forall>i. mutex s = Some (Pool i) \<longrightarrow> i < length (workers s))
      \<and> main_holds (main s) = (mutex s = Some Main))"

text \<open>
  The connection structure that a thread owns: the one in its local variable
  \<^verbatim>\<open>connection\<close>, from the dequeue (in a worker) or the allocation (in
  \<open>stream_server_loop\<close>) to the release or the enqueue.
\<close>

fun holding :: "wpc \<Rightarrow> addr option" where
  "holding (L73 d) = d"
| "holding (L75 c) = Some c"
| "holding (L76 c) = Some c"
| "holding pc = None"

fun held :: "wpc status \<Rightarrow> addr option" where
  "held (At pc) = holding pc"
| "held (In_handler pc) = holding pc"
| "held st = None"

fun loop_holding :: "lpc \<Rightarrow> addr option" where
  "loop_holding (L153 d fd) = d"
| "loop_holding (L154 c) = Some c"
| "loop_holding (L155 c) = Some c"
| "loop_holding pc = None"

fun main_held :: "main_pc status \<Rightarrow> addr option" where
  "main_held (At (In_loop server pc)) = loop_holding pc"
| "main_held st = None"

text \<open>
  The number of owners of a connection structure: its occurrences in the queue, plus
  the main thread if it owns it, plus the workers that own it. The invariant: a live
  structure has exactly one owner, and a structure that is not live has none.
\<close>

definition owners :: "sys \<Rightarrow> addr \<Rightarrow> nat" where
  "owners s c =
     count_list (pool_queue s) c
     + (if main_held (main s) = Some c then 1 else 0)
     + length (filter (\<lambda>st. held st = Some c) (workers s))"

definition owner_inv :: "sys \<Rightarrow> bool" where
  "owner_inv s = (\<forall>c. owners s c = (if connections s c = None then 0 else 1))"

text \<open>
  The queue holds the handles enqueued and not yet dequeued, in the order of their
  enqueue; it is empty as long as the main thread is in \<open>stream_server_create\<close>.
\<close>

fun in_create :: "main_pc status \<Rightarrow> bool" where
  "in_create (At (In_create pc)) = True"
| "in_create st = False"

definition queue_inv :: "sys \<Rightarrow> bool" where
  "queue_inv s =
     (enqueued s = map snd (dequeued s) @ pool_queue s
      \<and> (in_create (main s) \<longrightarrow> pool_queue s = []))"

text \<open>
  The program points of the main thread at which it neither holds the mutex, nor owns a
  connection structure, nor is about to signal.
\<close>

fun quiet_loop :: "lpc \<Rightarrow> bool" where
  "quiet_loop (L153 d fd) = (d = None)"
| "quiet_loop (L154 c) = False"
| "quiet_loop (L155 c) = False"
| "quiet_loop L156 = False"
| "quiet_loop L157 = False"
| "quiet_loop pc = True"

fun quiet :: "main_pc \<Rightarrow> bool" where
  "quiet (In_create pc) = True"
| "quiet (In_caller server) = True"
| "quiet (In_loop server pc) = quiet_loop pc"

fun quiet_at :: "main_pc status \<Rightarrow> bool" where
  "quiet_at (At mpc) = quiet mpc"
| "quiet_at st = False"

text \<open>
  The handle that a worker has dequeued and not yet passed to the handler, and the
  entries of a history that belong to one thread. The invariant: what a worker has
  dequeued is what it has passed to the handler, in the same order, followed by the
  handle it still has to pass; and only workers dequeue and call the handler.
\<close>

fun pending :: "wpc status \<Rightarrow> addr list" where
  "pending (At (L73 (Some c))) = [c]"
| "pending (At (L75 c)) = [c]"
| "pending st = []"

definition by_thread :: "tid \<Rightarrow> (tid \<times> addr) list \<Rightarrow> addr list" where
  "by_thread t xs = map snd (filter (\<lambda>x. fst x = t) xs)"

fun is_worker :: "nat \<Rightarrow> tid \<Rightarrow> bool" where
  "is_worker n (Pool i) = (i < n)"
| "is_worker n Main = False"

definition dispatch_inv :: "sys \<Rightarrow> bool" where
  "dispatch_inv s =
     ((\<forall>i < length (workers s).
         by_thread (Pool i) (dequeued s)
           = by_thread (Pool i) (dispatched s) @ pending (workers s ! i))
      \<and> list_all (\<lambda>x. is_worker (length (workers s)) (fst x)) (dequeued s)
      \<and> list_all (\<lambda>x. is_worker (length (workers s)) (fst x)) (dispatched s))"

text \<open>
  A worker that is about to wait has found the queue empty, and the queue is still empty.
  When the queue is not empty and there is a worker, some worker is not blocked on the
  condition variable, or the main thread is about to signal.
\<close>

fun signalling :: "main_pc status \<Rightarrow> bool" where
  "signalling (At (In_loop server L156)) = True"
| "signalling st = False"

definition progress_inv :: "sys \<Rightarrow> bool" where
  "progress_inv s =
     ((\<forall>i < length (workers s). workers s ! i = At L70 \<longrightarrow> pool_queue s = [])
      \<and> (pool_queue s \<noteq> [] \<longrightarrow>
            workers s = [] \<or> list_ex (\<lambda>st. \<not> is_blocked st) (workers s) \<or> signalling (main s)))"

text \<open>
  No wakeup is lost. A worker is on its way to a dequeue when it is awake, holds no
  handle and is not about to wait. While some worker is blocked on the condition
  variable, there are at least as many such workers as handles in the queue, the handle
  that the main thread is about to signal not counted.
\<close>

fun seeking :: "wpc status \<Rightarrow> bool" where
  "seeking (At L67) = True"
| "seeking (At L68) = True"
| "seeking (At L71) = True"
| "seeking (At (L73 None)) = True"
| "seeking (At (L76 c)) = True"
| "seeking (Woken pc) = True"
| "seeking st = False"

definition wakeup_inv :: "sys \<Rightarrow> bool" where
  "wakeup_inv s =
     (list_ex is_blocked (workers s) \<longrightarrow>
        length (pool_queue s)
          \<le> length (filter seeking (workers s)) + (if signalling (main s) then 1 else 0))"

text \<open>The invariants together.\<close>

definition invariant :: "create_args \<Rightarrow> sys \<Rightarrow> bool" where
  "invariant args s =
     (pool_inv args s \<and> mutex_inv s \<and> queue_inv s \<and> owner_inv s \<and> dispatch_inv s
      \<and> progress_inv s \<and> wakeup_inv s \<and> \<not> misuse s)"

section \<open>Sequences of calls, and example runs\<close>

text \<open>
  The calls of the loop of lines 96 to 98, from the iteration \<open>i\<close> on: the test and
  the creation of the thread for each slot below \<open>n\<close> (and the last test, which
  \<open>spawn_calls\<close> leaves out).
\<close>

definition spawn_calls :: "nat \<Rightarrow> nat \<Rightarrow> call list" where
  "spawn_calls i n = concat (map (\<lambda>j. [Local, Pthread_create j]) [i..<n])"

fun is_accept :: "call \<Rightarrow> bool" where
  "is_accept (Accept fd) = True"
| "is_accept c = False"

text \<open>
  Example schedules: the environment's answers, a complete
  \<open>stream_server_create\<close> with a pool of \<open>n\<close> workers on descriptor 3, one call of
  \<open>stream_server_loop\<close> that accepts descriptor \<open>fd\<close> into the structure \<open>c\<close>, and
  the moves of worker \<open>i\<close> from the lock to the unlock when the queue is not empty.
\<close>

definition no_env :: env where
  "no_env = \<lparr>env_int = 0, env_ptr = None, env_wake = 0\<rparr>"

definition returns_int :: "c_int \<Rightarrow> env" where
  "returns_int x = \<lparr>env_int = x, env_ptr = None, env_wake = 0\<rparr>"

definition returns_ptr :: "addr \<Rightarrow> env" where
  "returns_ptr p = \<lparr>env_int = 0, env_ptr = Some p, env_wake = 0\<rparr>"

definition wakes :: "nat \<Rightarrow> env" where
  "wakes k = \<lparr>env_int = 0, env_ptr = None, env_wake = k\<rparr>"

definition example_args :: "size_t \<Rightarrow> create_args" where
  "example_args n =
     \<lparr>port = 8080, max_waiting_connections = 16, thread_pool_size = n,
      handler = 1, handler_context = 2\<rparr>"

definition boot :: "nat \<Rightarrow> choice list" where
  "boot n =
     [Run Main (returns_ptr 1), Run Main no_env, Run Main no_env, Run Main no_env,
      Run Main (returns_ptr 2)]
     @ replicate (2 * n + 1) (Run Main no_env)
     @ [Run Main (returns_int 3), Run Main (returns_int 0), Run Main (returns_int 0),
        Run Main (returns_int 0), Run Main no_env]"

definition accepts :: "c_int \<Rightarrow> addr \<Rightarrow> nat \<Rightarrow> choice list" where
  "accepts fd c k =
     [Run Main no_env, Run Main no_env, Run Main (returns_int fd), Run Main (returns_ptr c),
      Run Main no_env, Run Main no_env, Run Main no_env, Run Main (wakes k), Run Main no_env,
      Run Main no_env]"

definition takes :: "nat \<Rightarrow> choice list" where
  "takes i = [Run (Pool i) no_env, Run (Pool i) no_env, Run (Pool i) no_env]"

text \<open>
  The main thread has returned from \<open>stream_server_create\<close> with a server: it is in
  the caller, or in \<open>stream_server_loop\<close> called with that server.
\<close>

fun initialised :: "main_pc status \<Rightarrow> bool" where
  "initialised (At (In_caller (Some server))) = True"
| "initialised (At (In_loop (Some server) pc)) = True"
| "initialised st = False"

text \<open>
  Bounds for \<open>stream_server_loop\<close>: the number of calls that the function can still
  make from a program point, and the number of \<^verbatim>\<open>accept\<close> calls among them.
\<close>

fun calls_left :: "lpc \<Rightarrow> nat" where
  "calls_left (L147 server) = 9"
| "calls_left L148 = 1"
| "calls_left (L150 server) = 8"
| "calls_left L151_E = 2"
| "calls_left L151_exit = 1"
| "calls_left (L152 fd) = 7"
| "calls_left (L153 d fd) = 6"
| "calls_left (L154 c) = 5"
| "calls_left (L155 c) = 4"
| "calls_left L156 = 3"
| "calls_left L157 = 2"
| "calls_left L158 = 1"

fun accepts_left :: "lpc \<Rightarrow> nat" where
  "accepts_left (L147 server) = 1"
| "accepts_left (L150 server) = 1"
| "accepts_left pc = 0"

text \<open>
  Example runs. With one worker: the worker is inside the handler of the first
  connection when the second one is accepted. With two workers: worker 0 dequeues the
  first connection and worker 1 the second, and worker 1 calls the handler first. After
  a failed allocation of the server: the caller holds a null pointer.
\<close>

definition stalled_schedule :: "choice list" where
  "stalled_schedule =
     boot 1 @ accepts 4 100 0 @ takes 0 @ [Run (Pool 0) no_env] @ accepts 5 101 0"

definition stalled_state :: sys where
  "stalled_state = the (run (example_args 1) init stalled_schedule)"

definition overtaking_schedule :: "choice list" where
  "overtaking_schedule =
     boot 2 @ accepts 4 100 0 @ accepts 5 101 0 @ takes 0 @ takes 1
     @ [Run (Pool 1) no_env, Run (Pool 0) no_env]"

definition overtaking_state :: sys where
  "overtaking_state = the (run (example_args 2) init overtaking_schedule)"

definition waiting_schedule :: "choice list" where
  "waiting_schedule = boot 1 @ [Run (Pool 0) no_env, Run (Pool 0) no_env]"

definition waiting_state :: sys where
  "waiting_state = the (run (example_args 1) init waiting_schedule)"

definition woken_state :: sys where
  "woken_state =
     the (run (example_args 1) init
            (waiting_schedule @ [Run (Pool 0) no_env, Spurious_wakeup 0]))"

definition no_server_state :: sys where
  "no_server_state = the (run (example_args 1) init [Run Main no_env, Run Main no_env])"

text \<open>After \<open>stream_server_create\<close> with a pool of two workers.\<close>

definition booted_state :: sys where
  "booted_state = the (run (example_args 2) init (boot 2))"

text \<open>
  Progress. A service move is a move of a worker, the return of a handler, or a move of
  the main thread between its lock and its unlock: no new connection is accepted and no
  worker wakes up without a signal. \<open>serve\<close> makes the steps of a schedule of service
  moves, and \<open>leads args s s'\<close> says that some such schedule takes the process from
  \<open>s\<close> to \<open>s'\<close>. \<open>idle_at j s\<close>: the process runs, the mutex is free and worker \<open>j\<close>
  is at the top of its loop. \<open>served s\<close>: the queue is empty and no worker holds a
  handle that it has not yet passed to the handler.
\<close>

fun service :: "sys \<Rightarrow> choice \<Rightarrow> bool" where
  "service s (Run Main e) = main_holds (main s)"
| "service s (Run (Pool i) e) = True"
| "service s (Handler_returns i uses) = True"
| "service s (Spurious_wakeup i) = False"
| "service s (Handler_killed i uses data n) = False"

fun serve :: "create_args \<Rightarrow> sys \<Rightarrow> choice list \<Rightarrow> sys option" where
  "serve args s [] = Some s"
| "serve args s (ch # chs) =
     (if service s ch
      then (case step args s ch of None \<Rightarrow> None | Some s' \<Rightarrow> serve args s' chs)
      else None)"

definition leads :: "create_args \<Rightarrow> sys \<Rightarrow> sys \<Rightarrow> bool" where
  "leads args s s' = (\<exists>chs. serve args s chs = Some s')"

definition idle_at :: "nat \<Rightarrow> sys \<Rightarrow> bool" where
  "idle_at j s =
     (j < length (workers s) \<and> \<not> terminated s \<and> mutex s = None \<and> workers s ! j = At L67)"

definition served :: "sys \<Rightarrow> bool" where
  "served s = (pool_queue s = [] \<and> list_all (\<lambda>st. pending st = []) (workers s))"

text \<open>
  The moves of the pool, and how far a worker is from its next dequeue when the queue is
  not empty: a move of the pool that is not a dequeue brings a worker nearer, and a
  signal or a spurious wakeup does too.
\<close>

fun pool_move :: "choice \<Rightarrow> bool" where
  "pool_move (Run (Pool i) e) = True"
| "pool_move (Handler_returns i uses) = True"
| "pool_move ch = False"

fun rank :: "wpc status \<Rightarrow> nat" where
  "rank (Blocked pc) = 9"
| "rank (Woken pc) = 8"
| "rank (At L71) = 7"
| "rank (At (L73 (Some c))) = 6"
| "rank (At (L75 c)) = 5"
| "rank (In_handler pc) = 4"
| "rank (At (L76 c)) = 3"
| "rank (At (L73 None)) = 3"
| "rank (At L67) = 2"
| "rank (At L68) = 1"
| "rank (At L70) = 0"
| "rank Finished = 0"

definition ranks :: "sys \<Rightarrow> nat" where
  "ranks s = sum_list (map rank (workers s))"

text \<open>A worker is inside the handler.\<close>

fun in_handler :: "wpc status \<Rightarrow> bool" where
  "in_handler (In_handler pc) = True"
| "in_handler st = False"

text \<open>
  More example states: in the loop of line 96 after the first worker was created; the
  only worker about to dequeue the first connection; the only worker back from the
  handler of the first connection.
\<close>

definition spawning_state :: sys where
  "spawning_state = the (run (example_args 2) init (take 7 (boot 2)))"

definition dequeuing_state :: sys where
  "dequeuing_state =
     the (run (example_args 1) init (boot 1 @ accepts 4 100 0 @ [Run (Pool 0) no_env]))"

definition returned_state :: sys where
  "returned_state =
     the (run (example_args 1) init (stalled_schedule @ [Handler_returns 0 []]))"

text \<open>
  A pool of two workers of which the second was not created: \<^verbatim>\<open>pthread_create\<close>
  returned \<^verbatim>\<open>EAGAIN\<close> (11).
\<close>

definition short_schedule :: "choice list" where
  "short_schedule =
     [Run Main (returns_ptr 1), Run Main no_env, Run Main no_env, Run Main no_env,
      Run Main (returns_ptr 2), Run Main no_env, Run Main no_env, Run Main no_env,
      Run Main (returns_int 11), Run Main no_env,
      Run Main (returns_int 3), Run Main (returns_int 0), Run Main (returns_int 0),
      Run Main (returns_int 0), Run Main no_env]"

definition short_state :: sys where
  "short_state = the (run (example_args 2) init short_schedule)"

text \<open>
  One worker, and a call of \<open>stream_server_loop\<close> in which \<^verbatim>\<open>accept\<close> returns the
  descriptor 4 and \<^verbatim>\<open>calloc\<close> a null pointer.
\<close>

definition null_handle_schedule :: "choice list" where
  "null_handle_schedule =
     boot 1 @ [Run Main no_env, Run Main no_env, Run Main (returns_int 4), Run Main no_env,
               Run Main no_env]"

definition null_handle_state :: sys where
  "null_handle_state = the (run (example_args 1) init null_handle_schedule)"

text \<open>
  Two workers that wait, and a connection accepted: the signal has woken the first
  worker, the second still waits, and the main thread is back in the caller.
\<close>

definition woken_pair_schedule :: "choice list" where
  "woken_pair_schedule =
     boot 2 @ takes 0 @ takes 1 @ accepts 4 100 0"

definition woken_pair_state :: sys where
  "woken_pair_state = the (run (example_args 2) init woken_pair_schedule)"

text \<open>The only worker has dequeued the first connection and still holds the mutex.\<close>

definition holding_state :: sys where
  "holding_state =
     the (run (example_args 1) init
            (boot 1 @ accepts 4 100 0 @ [Run (Pool 0) no_env, Run (Pool 0) no_env]))"

text \<open>The only worker has released the mutex and is about to call the handler.\<close>

definition calling_state :: sys where
  "calling_state =
     the (run (example_args 1) init
            (boot 1 @ accepts 4 100 0
             @ [Run (Pool 0) no_env, Run (Pool 0) no_env, Run (Pool 0) no_env]))"

text \<open>
  Runs without end. \<open>moves_of j\<close> are the moves of worker \<open>j\<close> at a program point.
  \<open>follow args s c\<close> is the run from \<open>s\<close> that makes the choice \<open>c n\<close> at time \<open>n\<close>,
  where it is possible. An example: from \<open>dequeuing_state\<close> the only worker serves the
  connection, finds the queue empty and waits (\<open>first_turn\<close>), and then, again and again,
  wakes up without a signal, finds the queue empty twice and waits (\<open>idle_turn\<close>).
\<close>

fun moves_of :: "nat \<Rightarrow> choice \<Rightarrow> bool" where
  "moves_of j (Run (Pool i) e) = (i = j)"
| "moves_of j ch = False"

primrec follow :: "create_args \<Rightarrow> sys \<Rightarrow> (nat \<Rightarrow> choice) \<Rightarrow> nat \<Rightarrow> sys" where
  "follow args s c 0 = s"
| "follow args s c (Suc n) =
     (case step args (follow args s c n) (c n) of
        None \<Rightarrow> follow args s c n
      | Some s' \<Rightarrow> s')"

definition first_turn :: "choice list" where
  "first_turn =
     [Run (Pool 0) no_env, Run (Pool 0) no_env, Run (Pool 0) no_env, Handler_returns 0 [],
      Run (Pool 0) no_env, Run (Pool 0) no_env, Run (Pool 0) no_env, Run (Pool 0) no_env]"

definition idle_turn :: "choice list" where
  "idle_turn =
     [Spurious_wakeup 0, Run (Pool 0) no_env, Run (Pool 0) no_env, Run (Pool 0) no_env,
      Run (Pool 0) no_env, Run (Pool 0) no_env, Run (Pool 0) no_env]"

definition patrol :: "nat \<Rightarrow> choice" where
  "patrol n = (if n < 8 then first_turn ! n else idle_turn ! ((n - 8) mod 7))"

section \<open>The steps, case by case\<close>

lemma owned_fields [simp]:
  "pool_queue (owned t s) = pool_queue s"
  "mutex (owned t s) = mutex s"
  "workers (owned t s) = workers s"
  "main (owned t s) = main s"
  "connections (owned t s) = connections s"
  "open_fds (owned t s) = open_fds s"
  "terminated (owned t s) = terminated s"
  "enqueued (owned t s) = enqueued s"
  "dequeued (owned t s) = dequeued s"
  "dispatched (owned t s) = dispatched s"
  "spawned (owned t s) = spawned s"
  "misuse (owned t s) = (misuse s \<or> mutex s \<noteq> Some t)"
  by (simp_all add: owned_def)

lemma live_fields [simp]:
  "pool_queue (live c s) = pool_queue s"
  "mutex (live c s) = mutex s"
  "workers (live c s) = workers s"
  "main (live c s) = main s"
  "connections (live c s) = connections s"
  "open_fds (live c s) = open_fds s"
  "terminated (live c s) = terminated s"
  "enqueued (live c s) = enqueued s"
  "dequeued (live c s) = dequeued s"
  "dispatched (live c s) = dispatched s"
  "spawned (live c s) = spawned s"
  "misuse (live c s) = (misuse s \<or> connections s c = None)"
  by (auto simp: live_def)

lemma thread_step_At:
  "thread_step prog t e (At pc) s =
     (case perform t (fst (prog pc)) e s of
        None \<Rightarrow> None
      | Some (Answer a, s') \<Rightarrow>
          (case resume (snd (prog pc)) a of
             Goes pc' \<Rightarrow> Some (At pc', s')
           | Ends \<Rightarrow> Some (Finished, s')
           | Stuck \<Rightarrow> None)
      | Some (Begins_wait, s') \<Rightarrow> Some (Blocked pc, s')
      | Some (Begins_handler, s') \<Rightarrow> Some (In_handler pc, s')
      | Some (Exits, s') \<Rightarrow> Some (Finished, s'))"
  by (simp add: thread_step_def)

lemma step_main:
  "step args s (Run Main e) =
     (if terminated s then None
      else case thread_step (main_program args) Main e (main s) s of
             None \<Rightarrow> None
           | Some (st, s') \<Rightarrow> Some (s'\<lparr>main := st\<rparr>))"
  by (simp add: step_def)

lemma step_bounds:
  assumes "step args s ch = Some s'"
  shows "\<not> terminated s"
    and "ch = Run (Pool i) e \<Longrightarrow> i < length (workers s)"
    and "ch = Spurious_wakeup i \<Longrightarrow> i < length (workers s)"
    and "ch = Handler_returns i uses \<Longrightarrow> i < length (workers s)"
    and "ch = Handler_killed i uses data n \<Longrightarrow> i < length (workers s)"
  using assms by (auto simp: step_def split: if_splits)

text \<open>The moves of a worker, one case for each line of \<open>thread_pool_handler\<close>.\<close>

lemma worker_step_cases [consumes 1, case_names lock dequeue1_empty dequeue1 wait reacquire
    dequeue2_empty dequeue2 unlock call free]:
  assumes "step args s (Run (Pool i) e) = Some s'"
  obtains
    "workers s ! i = At L67" "mutex s = None"
      "s' = s\<lparr>mutex := Some (Pool i), workers := (workers s)[i := At L68]\<rparr>"
  | "workers s ! i = At L68" "pool_queue s = []"
      "s' = (owned (Pool i) s)\<lparr>pool_queue := [], workers := (workers s)[i := At L70]\<rparr>"
  | c q where "workers s ! i = At L68" "pool_queue s = c # q"
      "s' = (owned (Pool i) s)\<lparr>pool_queue := q, dequeued := dequeued s @ [(Pool i, c)],
              workers := (workers s)[i := At (L73 (Some c))]\<rparr>"
  | "workers s ! i = At L70"
      "s' = (owned (Pool i) s)\<lparr>mutex := None, workers := (workers s)[i := Blocked L70]\<rparr>"
  | pc pc' where "workers s ! i = Woken pc" "mutex s = None"
      "resume (snd (thread_pool_handler (server_fields args) pc)) No_answer = Goes pc'"
      "s' = s\<lparr>mutex := Some (Pool i), workers := (workers s)[i := At pc']\<rparr>"
  | "workers s ! i = At L71" "pool_queue s = []"
      "s' = (owned (Pool i) s)\<lparr>pool_queue := [], workers := (workers s)[i := At (L73 None)]\<rparr>"
  | c q where "workers s ! i = At L71" "pool_queue s = c # q"
      "s' = (owned (Pool i) s)\<lparr>pool_queue := q, dequeued := dequeued s @ [(Pool i, c)],
              workers := (workers s)[i := At (L73 (Some c))]\<rparr>"
  | d where "workers s ! i = At (L73 d)"
      "s' = (owned (Pool i) s)\<lparr>mutex := None,
              workers := (workers s)[i := At (case d of None \<Rightarrow> L67 | Some c \<Rightarrow> L75 c)]\<rparr>"
  | c where "workers s ! i = At (L75 c)"
      "s' = s\<lparr>dispatched := dispatched s @ [(Pool i, c)],
              workers := (workers s)[i := In_handler (L75 c)]\<rparr>"
  | c where "workers s ! i = At (L76 c)"
      "s' = (live c s)\<lparr>connections := (connections s)(c := None),
              workers := (workers s)[i := At L67]\<rparr>"
proof (cases "workers s ! i")
  case (At pc)
  show ?thesis
  proof (cases pc)
    case L67
    with At assms that(1) show ?thesis
      by (auto simp: step_def thread_step_At split: if_splits)
  next
    case L68
    with At assms that(2,3) show ?thesis
      by (cases "pool_queue s") (auto simp: step_def thread_step_At split: if_splits)
  next
    case L70
    with At assms that(4) show ?thesis
      by (auto simp: step_def thread_step_At split: if_splits)
  next
    case L71
    with At assms that(6,7) show ?thesis
      by (cases "pool_queue s") (auto simp: step_def thread_step_At split: if_splits)
  next
    case (L73 d)
    with At assms that(8) show ?thesis
      by (auto simp: step_def thread_step_At split: if_splits)
  next
    case (L75 c)
    with At assms that(9) show ?thesis
      by (auto simp: step_def thread_step_At split: if_splits)
  next
    case (L76 c)
    with At assms that(10) show ?thesis
      by (auto simp: step_def thread_step_At split: if_splits)
  qed
next
  case (Woken pc)
  with assms that(5) show ?thesis
    by (auto simp: step_def thread_step_def split: if_splits resumed.splits)
qed (use assms in \<open>auto simp: step_def thread_step_def split: if_splits\<close>)

lemma wakeup_step_cases [consumes 1, case_names wakeup]:
  assumes "step args s (Spurious_wakeup i) = Some s'"
  obtains pc where "workers s ! i = Blocked pc"
    "s' = s\<lparr>workers := (workers s)[i := Woken pc]\<rparr>"
  using assms by (cases "workers s ! i") (auto simp: step_def split: if_splits)

lemma handler_step_cases [consumes 1, case_names returns]:
  assumes "step args s (Handler_returns i uses) = Some s'"
  obtains c where "workers s ! i = In_handler (L75 c)"
    "s' = s\<lparr>open_fds := foldl io_effect (open_fds s) (handler_io (connections s c) uses),
            workers := (workers s)[i := At (L76 c)]\<rparr>"
proof (cases "workers s ! i")
  case (In_handler pc)
  with assms that show ?thesis
    by (cases pc) (auto simp: step_def handler_done_def split: if_splits)
qed (use assms in \<open>auto simp: step_def handler_done_def split: if_splits\<close>)

lemma killed_step_cases [consumes 1, case_names killed]:
  assumes "step args s (Handler_killed i uses data n) = Some s'"
  obtains c where "workers s ! i = In_handler (L75 c)"
    "s' = s\<lparr>open_fds := foldl io_effect (open_fds s) (handler_io (connections s c) uses),
            terminated := True\<rparr>"
proof (cases "workers s ! i")
  case (In_handler pc)
  with assms that show ?thesis
    by (cases pc) (auto simp: step_def handler_killed_def split: if_splits)
qed (use assms in \<open>auto simp: step_def handler_killed_def split: if_splits\<close>)

text \<open>Reachable states, by induction on the schedule.\<close>

lemma run_snoc:
  "run args s (chs @ [ch]) =
     (case run args s chs of None \<Rightarrow> None | Some s' \<Rightarrow> step args s' ch)"
  by (induction chs arbitrary: s) (auto split: option.splits)

lemma reachable_init: "reachable args init"
  unfolding reachable_def by (rule exI [of _ "[]"]) simp

lemma reachable_step:
  assumes "reachable args s" and "step args s ch = Some s'"
  shows "reachable args s'"
proof -
  from assms(1) obtain chs where "run args init chs = Some s"
    by (auto simp: reachable_def)
  with assms(2) have "run args init (chs @ [ch]) = Some s'"
    by (simp add: run_snoc)
  then show ?thesis
    unfolding reachable_def by blast
qed

lemma reachable_induct [consumes 1, case_names init step]:
  assumes reach: "reachable args s"
    and init: "P init"
    and step: "\<And>s ch s'. reachable args s \<Longrightarrow> P s \<Longrightarrow> step args s ch = Some s' \<Longrightarrow> P s'"
  shows "P s"
proof -
  from reach obtain chs where "run args init chs = Some s"
    by (auto simp: reachable_def)
  then show ?thesis
  proof (induction chs arbitrary: s rule: rev_induct)
    case Nil
    with init show ?case
      by simp
  next
    case (snoc ch chs)
    from snoc.prems obtain s0 where s0: "run args init chs = Some s0" "step args s0 ch = Some s"
      by (auto simp: run_snoc split: option.splits)
    from s0(1) have "reachable args s0"
      unfolding reachable_def by blast
    with s0 snoc.IH show ?case
      by (blast intro: step)
  qed
qed

section \<open>The pool of workers\<close>

lemma next_worker:
  fixes i n :: size_t
  assumes "i < n"
  shows "unat (i + 1) = Suc (unat i)" and "i + 1 \<le> n" and "Suc (unat i) \<le> unat n"
proof -
  from assms show "unat (i + 1) = Suc (unat i)"
    by (metis add.commute add_cancel_left_left inc_i linorder_not_le one_neq_zero unatSuc
        word_less_1)
  from assms show "i + 1 \<le> n"
    by (metis inc_le)
  from assms show "Suc (unat i) \<le> unat n"
    by (simp add: word_less_nat_alt)
qed

lemma loop_done:
  fixes i n :: size_t
  shows "i \<le> n \<Longrightarrow> \<not> i < n \<Longrightarrow> unat i = unat n"
  by simp

lemma well_placed_update:
  "list_all well_placed ws \<Longrightarrow> well_placed st \<Longrightarrow> list_all well_placed (ws[i := st])"
  by (auto simp: list_all_iff dest: set_update_subset_insert [THEN subsetD])

lemma well_placed_wake [simp]: "well_placed (wake st) = well_placed st"
  by (cases st) simp_all

lemma well_placed_nth:
  "list_all well_placed ws \<Longrightarrow> i < length ws \<Longrightarrow> well_placed (ws ! i)"
  by (simp add: list_all_length)

lemma pool_inv_same_pool:
  assumes "pool_inv args s" and "main s' = main s"
    and "length (workers s') = length (workers s)"
    and "list_all well_placed (workers s')"
    and "spawned s' = spawned s"
  shows "pool_inv args s'"
  using assms by (simp add: pool_inv_def)

lemma pool_inv_main_step:
  assumes inv: "pool_inv args s" and st: "step args s (Run Main e) = Some s'"
  shows "pool_inv args s'"
proof (cases "main s")
  case (At mpc)
  show ?thesis
  proof (cases mpc)
    case (In_create pc)
    from inv have "length (workers s) \<le> length (spawned s)"
      by (metis length_filter_le pool_inv_def)
    then have le: "\<And>i :: size_t. length (spawned s) = unat i \<Longrightarrow> i < thread_pool_size args
        \<Longrightarrow> Suc (length (workers s)) \<le> unat (thread_pool_size args)"
      by (simp add: word_less_nat_alt)
    from In_create At inv st le show ?thesis
      by (cases pc)
        (auto simp: step_main thread_step_At pool_inv_def CHECK_IF_INVALID_def new_fd_def
          next_worker loop_done split: if_splits option.splits)
  next
    case (In_caller server)
    with At inv st show ?thesis
      by (auto simp: step_main thread_step_At pool_inv_def split: if_splits)
  next
    case (In_loop server pc)
    with At inv st show ?thesis
      by (cases pc)
        (auto simp: step_main thread_step_At pool_inv_def CHECK_IF_INVALID_def new_fd_def
          well_placed_update well_placed_nth split: if_splits option.splits)
  qed
qed (use inv st in \<open>auto simp: step_main thread_step_def pool_inv_def
      split: if_splits resumed.splits\<close>)

lemma pool_inv_step:
  assumes inv: "pool_inv args s" and st: "step args s ch = Some s'"
  shows "pool_inv args s'"
proof (cases ch)
  case (Run t e)
  show ?thesis
  proof (cases t)
    case Main
    with Run st have "step args s (Run Main e) = Some s'"
      by simp
    then show ?thesis
      by (rule pool_inv_main_step [OF inv])
  next
    case (Pool i)
    with Run st have st': "step args s (Run (Pool i) e) = Some s'"
      by simp
    note i = step_bounds(2) [OF st' refl]
    from inv i have wp: "well_placed (workers s ! i)"
      by (simp add: pool_inv_def well_placed_nth)
    from inv have wps: "list_all well_placed (workers s)"
      by (simp add: pool_inv_def)
    from st' show ?thesis
    proof (cases rule: worker_step_cases)
      case (reacquire pc pc')
      with wp have "pc' = L71"
        by simp
      with reacquire wps show ?thesis
        by (intro pool_inv_same_pool [OF inv]) (simp_all add: well_placed_update)
    next
      case (unlock d)
      with wps show ?thesis
        by (intro pool_inv_same_pool [OF inv]) (simp_all add: well_placed_update)
    qed (use wps in \<open>(intro pool_inv_same_pool [OF inv]; simp add: well_placed_update)\<close>)+
  qed
next
  case (Spurious_wakeup i)
  with st have "step args s (Spurious_wakeup i) = Some s'"
    by simp
  then show ?thesis
  proof (cases rule: wakeup_step_cases)
    case (wakeup pc)
    from inv wakeup(1) step_bounds(3) [OF st Spurious_wakeup] have "pc = L70"
      by (auto dest: well_placed_nth simp: pool_inv_def)
    with inv wakeup show ?thesis
      by (intro pool_inv_same_pool [OF inv]) (simp_all add: well_placed_update pool_inv_def)
  qed
next
  case (Handler_returns i uses)
  with st have "step args s (Handler_returns i uses) = Some s'"
    by simp
  then show ?thesis
  proof (cases rule: handler_step_cases)
    case (returns c)
    with inv show ?thesis
      by (intro pool_inv_same_pool [OF inv]) (simp_all add: well_placed_update pool_inv_def)
  qed
next
  case (Handler_killed i uses data n)
  with st have "step args s (Handler_killed i uses data n) = Some s'"
    by simp
  then show ?thesis
    by (cases rule: killed_step_cases) (use inv in \<open>simp add: pool_inv_def\<close>)
qed

lemma main_step_At:
  assumes "pool_inv args s" and "step args s (Run Main e) = Some s'"
  obtains mpc where "main s = At mpc"
  using assms
  by (cases "main s") (auto simp: pool_inv_def step_main thread_step_def split: if_splits)

text \<open>
  The moves of the main thread. The moves that change nothing of the shared state but
  the open descriptors are one case; the others are one case for each call.
\<close>

lemma main_step_cases [consumes 2, case_names silent queue_create mutex_init spawn dies
    calloc store lock enqueue signal_none signal unlock]:
  assumes "pool_inv args s" and "step args s (Run Main e) = Some s'"
  obtains
    "quiet_at (main s)" "quiet_at (main s')"
      "pool_queue s' = pool_queue s" "mutex s' = mutex s" "workers s' = workers s"
      "connections s' = connections s" "terminated s' = terminated s" "misuse s' = misuse s"
      "enqueued s' = enqueued s" "dequeued s' = dequeued s" "dispatched s' = dispatched s"
  | "main s = At (In_create C92)"
      "s' = s\<lparr>pool_queue := [], main := At (In_create C93)\<rparr>"
  | "main s = At (In_create C93)"
      "s' = s\<lparr>mutex := None, main := At (In_create C94)\<rparr>"
  | a i where "main s = At (In_create (C97 (Some a) i))"
      "s' = s\<lparr>workers := workers s @ [At L67], main := At (In_create (C96 (Some a) (i + 1))),
              spawned := spawned s @ [0]\<rparr>"
  | "quiet_at (main s)"
      "s' = s\<lparr>terminated := True, main := Finished\<rparr>"
  | server fd c where "main s = At (In_loop server (L152 fd))" "connections s c = None"
      "s' = s\<lparr>connections := (connections s)(c := Some \<lparr>id_field = 0\<rparr>),
              main := At (In_loop server (L153 (Some c) fd))\<rparr>"
  | server fd c where "main s = At (In_loop server (L153 (Some c) fd))"
      "s' = (live c s)\<lparr>connections := (connections s)(c := Some \<lparr>id_field = fd\<rparr>),
              main := At (In_loop server (L154 c))\<rparr>"
  | server c where "main s = At (In_loop server (L154 c))" "mutex s = None"
      "s' = s\<lparr>mutex := Some Main, main := At (In_loop server (L155 c))\<rparr>"
  | server c where "main s = At (In_loop server (L155 c))"
      "s' = (owned Main s)\<lparr>pool_queue := pool_queue s @ [c], enqueued := enqueued s @ [c],
              main := At (In_loop server L156)\<rparr>"
  | server where "main s = At (In_loop server L156)" "\<not> list_ex is_blocked (workers s)"
      "s' = s\<lparr>main := At (In_loop server L157)\<rparr>"
  | server k where "main s = At (In_loop server L156)" "k < length (workers s)"
      "is_blocked (workers s ! k)"
      "s' = s\<lparr>workers := (workers s)[k := wake (workers s ! k)],
              main := At (In_loop server L157)\<rparr>"
  | server where "main s = At (In_loop server L157)"
      "s' = (owned Main s)\<lparr>mutex := None, main := At (In_loop server L158)\<rparr>"
proof -
  from assms obtain mpc where At: "main s = At mpc"
    by (rule main_step_At)
  note st = assms(2)
  note defs = step_main thread_step_At CHECK_IF_INVALID_def new_fd_def
    dynamic_queue_create_def dynamic_queue_enqueue_def
  show ?thesis
  proof (cases mpc)
    case (In_create pc)
    show ?thesis
    proof (cases pc)
      case C86
      with In_create At st that(1) show ?thesis
        by (auto simp: defs split: if_splits option.splits)
    next
      case C88
      with In_create At st that(1) show ?thesis
        by (auto simp: defs split: if_splits option.splits)
    next
      case C92
      with In_create At st that(2) show ?thesis
        by (auto simp: defs split: if_splits option.splits)
    next
      case C93
      with In_create At st that(3) show ?thesis
        by (auto simp: defs split: if_splits option.splits)
    next
      case C94
      with In_create At st that(1) show ?thesis
        by (auto simp: defs split: if_splits option.splits)
    next
      case C95
      with In_create At st that(1) show ?thesis
        by (auto simp: defs split: if_splits option.splits)
    next
      case (C96 p i)
      with In_create At st that(1) show ?thesis
        by (auto simp: defs split: if_splits option.splits)
    next
      case (C97 p i)
      with In_create At st that(1) that(4) that(5) show ?thesis
        by (cases p) (auto simp: defs split: if_splits option.splits)
    next
      case C100
      with In_create At st that(1) show ?thesis
        by (auto simp: defs split: if_splits option.splits)
    next
      case C101_E
      with In_create At st that(1) show ?thesis
        by (auto simp: defs split: if_splits option.splits)
    next
      case (C103 fd)
      with In_create At st that(1) show ?thesis
        by (auto simp: defs split: if_splits option.splits)
    next
      case C104_E
      with In_create At st that(1) show ?thesis
        by (auto simp: defs split: if_splits option.splits)
    next
      case (C112 fd)
      with In_create At st that(1) show ?thesis
        by (auto simp: defs split: if_splits option.splits)
    next
      case C113_E
      with In_create At st that(1) show ?thesis
        by (auto simp: defs split: if_splits option.splits)
    next
      case (C115 fd)
      with In_create At st that(1) show ?thesis
        by (auto simp: defs split: if_splits option.splits)
    next
      case C116_E
      with In_create At st that(1) show ?thesis
        by (auto simp: defs split: if_splits option.splits)
    next
      case (C117 fd)
      with In_create At st that(1) show ?thesis
        by (auto simp: defs split: if_splits option.splits)
    next
      case C_exit
      with In_create At st that(5) show ?thesis
        by (auto simp: defs split: if_splits option.splits)
    qed
  next
    case (In_caller server)
    with At st that(1) show ?thesis
      by (auto simp: defs split: if_splits option.splits)
  next
    case (In_loop server pc)
    show ?thesis
    proof (cases pc)
      case (L147 x)
      with In_loop At st that(1) show ?thesis
        by (auto simp: defs split: if_splits option.splits)
    next
      case L148
      with In_loop At st that(1) show ?thesis
        by (auto simp: defs split: if_splits option.splits)
    next
      case (L150 x)
      with In_loop At st that(1) show ?thesis
        by (auto simp: defs split: if_splits option.splits)
    next
      case L151_E
      with In_loop At st that(1) show ?thesis
        by (auto simp: defs split: if_splits option.splits)
    next
      case L151_exit
      with In_loop At st that(5) show ?thesis
        by (auto simp: defs split: if_splits option.splits)
    next
      case (L152 fd)
      with In_loop At st that(1) that(6) show ?thesis
        by (auto simp: defs split: if_splits option.splits)
    next
      case (L153 d fd)
      with In_loop At st that(5) that(7) show ?thesis
        by (cases d) (auto simp: defs split: if_splits option.splits)
    next
      case (L154 c)
      with In_loop At st that(8) show ?thesis
        by (auto simp: defs split: if_splits option.splits)
    next
      case (L155 c)
      with In_loop At st that(9) show ?thesis
        by (auto simp: defs split: if_splits option.splits)
    next
      case L156
      with In_loop At st that(10) that(11) show ?thesis
        by (auto simp: defs split: if_splits option.splits)
    next
      case L157
      with In_loop At st that(12) show ?thesis
        by (auto simp: defs split: if_splits option.splits)
    next
      case L158
      with In_loop At st that(1) show ?thesis
        by (auto simp: defs split: if_splits option.splits)
    qed
  qed
qed

section \<open>The mutex\<close>

lemma holds_wake [simp]: "holds (wake st) = holds st"
  by (cases st) simp_all

lemma mutex_inv_main_step:
  assumes pool: "pool_inv args s" and inv: "mutex_inv s"
    and st: "step args s (Run Main e) = Some s'"
  shows "mutex_inv s'"
proof (cases "main s")
  case (At mpc)
  show ?thesis
  proof (cases mpc)
    case (In_create pc)
    with At pool inv st show ?thesis
      by (cases pc)
        (auto simp: step_main thread_step_At pool_inv_def mutex_inv_def CHECK_IF_INVALID_def
          new_fd_def nth_append split: if_splits option.splits)
  next
    case (In_caller server)
    with At inv st show ?thesis
      by (auto simp: step_main thread_step_At mutex_inv_def split: if_splits)
  next
    case (In_loop server pc)
    with At inv st show ?thesis
      by (cases pc)
        (auto simp: step_main thread_step_At mutex_inv_def CHECK_IF_INVALID_def new_fd_def
          nth_list_update split: if_splits option.splits)
  qed
qed (use pool st in \<open>auto simp: step_main thread_step_def pool_inv_def
      split: if_splits resumed.splits\<close>)

lemma mutex_inv_worker_step:
  assumes pool: "pool_inv args s" and inv: "mutex_inv s"
    and st: "step args s (Run (Pool i) e) = Some s'"
  shows "mutex_inv s'"
proof -
  note i = step_bounds(2) [OF st refl]
  from pool i have wp: "well_placed (workers s ! i)"
    by (simp add: pool_inv_def well_placed_nth)
  from st show ?thesis
  proof (cases rule: worker_step_cases)
    case lock
    with inv i show ?thesis
      by (auto simp: mutex_inv_def nth_list_update)
  next
    case dequeue1_empty
    with inv i show ?thesis
      by (auto simp: mutex_inv_def nth_list_update)
  next
    case (dequeue1 c q)
    with inv i show ?thesis
      by (auto simp: mutex_inv_def nth_list_update)
  next
    case wait
    with inv i show ?thesis
      by (auto simp: mutex_inv_def nth_list_update)
  next
    case (reacquire pc pc')
    with wp have "pc' = L71"
      by simp
    with reacquire inv i show ?thesis
      by (auto simp: mutex_inv_def nth_list_update)
  next
    case dequeue2_empty
    with inv i show ?thesis
      by (auto simp: mutex_inv_def nth_list_update)
  next
    case (dequeue2 c q)
    with inv i show ?thesis
      by (auto simp: mutex_inv_def nth_list_update)
  next
    case (unlock d)
    with inv i show ?thesis
      by (cases d) (auto simp: mutex_inv_def nth_list_update)
  next
    case (call c)
    with inv i show ?thesis
      by (auto simp: mutex_inv_def nth_list_update)
  next
    case (free c)
    with inv i show ?thesis
      by (auto simp: mutex_inv_def nth_list_update)
  qed
qed

lemma mutex_inv_step:
  assumes pool: "pool_inv args s" and inv: "mutex_inv s" and st: "step args s ch = Some s'"
  shows "mutex_inv s'"
proof (cases ch)
  case (Run t e)
  show ?thesis
  proof (cases t)
    case Main
    with Run st have "step args s (Run Main e) = Some s'"
      by simp
    then show ?thesis
      by (rule mutex_inv_main_step [OF pool inv])
  next
    case (Pool i)
    with Run st have "step args s (Run (Pool i) e) = Some s'"
      by simp
    then show ?thesis
      by (rule mutex_inv_worker_step [OF pool inv])
  qed
next
  case (Spurious_wakeup i)
  with st have "step args s (Spurious_wakeup i) = Some s'"
    by simp
  then show ?thesis
  proof (cases rule: wakeup_step_cases)
    case (wakeup pc)
    with inv step_bounds(3) [OF st Spurious_wakeup] show ?thesis
      by (auto simp: mutex_inv_def nth_list_update)
  qed
next
  case (Handler_returns i uses)
  with st have "step args s (Handler_returns i uses) = Some s'"
    by simp
  then show ?thesis
  proof (cases rule: handler_step_cases)
    case (returns c)
    with inv step_bounds(4) [OF st Handler_returns] show ?thesis
      by (auto simp: mutex_inv_def nth_list_update)
  qed
next
  case (Handler_killed i uses data n)
  with st have "step args s (Handler_killed i uses data n) = Some s'"
    by simp
  then show ?thesis
    by (cases rule: killed_step_cases) (use inv in \<open>simp add: mutex_inv_def\<close>)
qed

section \<open>The queue\<close>

lemma queue_inv_main_step:
  assumes pool: "pool_inv args s" and inv: "queue_inv s"
    and st: "step args s (Run Main e) = Some s'"
  shows "queue_inv s'"
proof -
  from pool st obtain mpc where At: "main s = At mpc"
    by (rule main_step_At)
  show ?thesis
  proof (cases mpc)
    case (In_create pc)
    with At inv st show ?thesis
      by (cases pc)
        (auto simp: step_main thread_step_At queue_inv_def CHECK_IF_INVALID_def new_fd_def
          dynamic_queue_create_def split: if_splits option.splits)
  next
    case (In_caller server)
    with At inv st show ?thesis
      by (auto simp: step_main thread_step_At queue_inv_def split: if_splits)
  next
    case (In_loop server pc)
    with At inv st show ?thesis
      by (cases pc)
        (auto simp: step_main thread_step_At queue_inv_def CHECK_IF_INVALID_def new_fd_def
          dynamic_queue_enqueue_def split: if_splits option.splits)
  qed
qed

lemma queue_inv_step:
  assumes pool: "pool_inv args s" and inv: "queue_inv s" and st: "step args s ch = Some s'"
  shows "queue_inv s'"
proof (cases ch)
  case (Run t e)
  show ?thesis
  proof (cases t)
    case Main
    with Run st have "step args s (Run Main e) = Some s'"
      by simp
    then show ?thesis
      by (rule queue_inv_main_step [OF pool inv])
  next
    case (Pool i)
    with Run st have "step args s (Run (Pool i) e) = Some s'"
      by simp
    then show ?thesis
      by (cases rule: worker_step_cases) (use inv in \<open>simp_all add: queue_inv_def\<close>)
  qed
next
  case (Spurious_wakeup i)
  with st have "step args s (Spurious_wakeup i) = Some s'"
    by simp
  then show ?thesis
    by (cases rule: wakeup_step_cases) (use inv in \<open>simp add: queue_inv_def\<close>)
next
  case (Handler_returns i uses)
  with st have "step args s (Handler_returns i uses) = Some s'"
    by simp
  then show ?thesis
    by (cases rule: handler_step_cases) (use inv in \<open>simp add: queue_inv_def\<close>)
next
  case (Handler_killed i uses data n)
  with st have "step args s (Handler_killed i uses data n) = Some s'"
    by simp
  then show ?thesis
    by (cases rule: killed_step_cases) (use inv in \<open>simp add: queue_inv_def\<close>)
qed

section \<open>The owners of the connection structures\<close>

lemma holders_update:
  assumes "i < length ws"
  shows "length (filter P (ws[i := st])) + (if P (ws ! i) then 1 else 0)
       = length (filter P ws) + (if P st then 1 else 0)"
  using assms
proof (induction ws arbitrary: i)
  case Nil
  then show ?case by simp
next
  case (Cons w ws)
  then show ?case
    by (cases i) auto
qed

lemma held_wake [simp]: "held (wake st) = held st"
  by (cases st) simp_all

lemma owners_worker_update:
  assumes "i < length (workers s)"
    and "workers s' = (workers s)[i := st]"
    and "main s' = main s"
  shows "owners s' c + (if held (workers s ! i) = Some c then 1 else 0) + count_list (pool_queue s) c
       = owners s c + (if held st = Some c then 1 else 0) + count_list (pool_queue s') c"
  using holders_update [OF assms(1), of "\<lambda>st. held st = Some c" st] assms(2,3)
  by (simp add: owners_def)

lemma owner_inv_at: "owner_inv s \<Longrightarrow> owners s c = (if connections s c = None then 0 else 1)"
  by (simp add: owner_inv_def)

lemma owner_inv_worker_step:
  assumes pool: "pool_inv args s" and inv: "owner_inv s"
    and st: "step args s (Run (Pool i) e) = Some s'"
  shows "owner_inv s'"
  unfolding owner_inv_def
proof
  fix c
  note i = step_bounds(2) [OF st refl]
  from pool i have wp: "well_placed (workers s ! i)"
    by (simp add: pool_inv_def well_placed_nth)
  note at = owner_inv_at [OF inv, of c]
  from st show "owners s' c = (if connections s' c = None then 0 else 1)"
  proof (cases rule: worker_step_cases)
    case lock
    with at owners_worker_update [OF i, of s' "At L68" c] show ?thesis
      by (auto split: if_splits)
  next
    case dequeue1_empty
    with at owners_worker_update [OF i, of s' "At L70" c] show ?thesis
      by (auto split: if_splits)
  next
    case (dequeue1 c0 q)
    with at owners_worker_update [OF i, of s' "At (L73 (Some c0))" c] show ?thesis
      by (auto split: if_splits)
  next
    case wait
    with at owners_worker_update [OF i, of s' "Blocked L70" c] show ?thesis
      by (auto split: if_splits)
  next
    case (reacquire pc pc')
    with wp have "pc = L70" "pc' = L71"
      by simp_all
    with reacquire at owners_worker_update [OF i, of s' "At L71" c] show ?thesis
      by (auto split: if_splits)
  next
    case dequeue2_empty
    with at owners_worker_update [OF i, of s' "At (L73 None)" c] show ?thesis
      by (auto split: if_splits)
  next
    case (dequeue2 c0 q)
    with at owners_worker_update [OF i, of s' "At (L73 (Some c0))" c] show ?thesis
      by (auto split: if_splits)
  next
    case (unlock d)
    with at owners_worker_update [OF i, of s' "At (case d of None \<Rightarrow> L67 | Some c \<Rightarrow> L75 c)" c]
    show ?thesis
      by (cases d) (auto split: if_splits)
  next
    case (call c0)
    with at owners_worker_update [OF i, of s' "In_handler (L75 c0)" c] show ?thesis
      by (auto split: if_splits)
  next
    case (free c0)
    with at owners_worker_update [OF i, of s' "At L67" c] show ?thesis
      by (auto split: if_splits)
  qed
qed


lemma holders_wake [simp]:
  "length (filter (\<lambda>st. held st = Some c) (ws[k := wake (ws ! k)]))
     = length (filter (\<lambda>st. held st = Some c) ws)"
proof (cases "k < length ws")
  case True
  from holders_update [OF True, of "\<lambda>st. held st = Some c" "wake (ws ! k)"] show ?thesis
    by simp
next
  case False
  then show ?thesis
    by (simp add: list_update_beyond)
qed

lemma quiet_at_held [simp]: "quiet_at st \<Longrightarrow> main_held st = None"
proof (induction st rule: main_held.induct)
  case (1 server pc)
  then show ?case
    by (cases pc) simp_all
qed simp_all

lemma quiet_at_holds [simp]: "quiet_at st \<Longrightarrow> \<not> main_holds st"
proof (induction st rule: main_holds.induct)
qed simp_all

lemma owner_inv_main_step:
  assumes pool: "pool_inv args s" and queue: "queue_inv s" and inv: "owner_inv s"
    and st: "step args s (Run Main e) = Some s'"
  shows "owner_inv s'"
  unfolding owner_inv_def
proof
  fix c
  note at = owner_inv_at [OF inv, of c, unfolded owners_def]
  from pool st show "owners s' c = (if connections s' c = None then 0 else 1)"
  proof (cases rule: main_step_cases)
    case silent
    with at show ?thesis
      by (simp add: owners_def)
  next
    case queue_create
    with at queue show ?thesis
      by (simp add: owners_def queue_inv_def)
  next
    case mutex_init
    with at show ?thesis
      by (simp add: owners_def)
  next
    case (spawn a i)
    with at show ?thesis
      by (simp add: owners_def)
  next
    case dies
    with at show ?thesis
      by (simp add: owners_def)
  next
    case (calloc server fd c0)
    with at owner_inv_at [OF inv, of c0, unfolded owners_def] show ?thesis
      by (auto simp: owners_def split: if_splits)
  next
    case (store server fd c0)
    with at show ?thesis
      by (auto simp: owners_def split: if_splits)
  next
    case (lock server c0)
    with at show ?thesis
      by (simp add: owners_def)
  next
    case (enqueue server c0)
    with at show ?thesis
      by (auto simp: owners_def split: if_splits)
  next
    case (signal_none server)
    with at show ?thesis
      by (simp add: owners_def)
  next
    case (signal server k)
    with at show ?thesis
      by (simp add: owners_def)
  next
    case (unlock server)
    with at show ?thesis
      by (simp add: owners_def)
  qed
qed

lemma owner_inv_step:
  assumes pool: "pool_inv args s" and queue: "queue_inv s" and inv: "owner_inv s"
    and st: "step args s ch = Some s'"
  shows "owner_inv s'"
proof (cases ch)
  case (Run t e)
  show ?thesis
  proof (cases t)
    case Main
    with Run st have "step args s (Run Main e) = Some s'"
      by simp
    then show ?thesis
      by (rule owner_inv_main_step [OF pool queue inv])
  next
    case (Pool i)
    with Run st have "step args s (Run (Pool i) e) = Some s'"
      by simp
    then show ?thesis
      by (rule owner_inv_worker_step [OF pool inv])
  qed
next
  case (Spurious_wakeup i)
  with st have "step args s (Spurious_wakeup i) = Some s'"
    by simp
  then show ?thesis
  proof (cases rule: wakeup_step_cases)
    case (wakeup pc)
    have "owners s' c = owners s c" for c
      using owners_worker_update [OF step_bounds(3) [OF st Spurious_wakeup], of s' "Woken pc" c]
        wakeup
      by simp
    with inv wakeup show ?thesis
      by (simp add: owner_inv_def)
  qed
next
  case (Handler_returns i uses)
  with st have "step args s (Handler_returns i uses) = Some s'"
    by simp
  then show ?thesis
  proof (cases rule: handler_step_cases)
    case (returns c0)
    have "owners s' c = owners s c" for c
      using owners_worker_update [OF step_bounds(4) [OF st Handler_returns], of s' "At (L76 c0)" c]
        returns
      by simp
    with inv returns show ?thesis
      by (simp add: owner_inv_def)
  qed
next
  case (Handler_killed i uses data n)
  with st have "step args s (Handler_killed i uses data n) = Some s'"
    by simp
  then show ?thesis
    by (cases rule: killed_step_cases) (use inv in \<open>simp add: owner_inv_def owners_def\<close>)
qed

section \<open>No misuse of the mutex or of the memory\<close>

lemma held_owner:
  assumes "owner_inv s" and "i < length (workers s)" and "held (workers s ! i) = Some c"
  shows "connections s c \<noteq> None"
proof -
  from assms(2,3) have "workers s ! i \<in> set (filter (\<lambda>st. held st = Some c) (workers s))"
    by simp
  then have "0 < length (filter (\<lambda>st. held st = Some c) (workers s))"
    by (rule length_pos_if_in_set)
  then have "0 < owners s c"
    by (simp add: owners_def)
  with assms(1) show ?thesis
    by (auto simp: owner_inv_def split: if_splits)
qed

lemma main_held_owner:
  assumes "owner_inv s" and "main_held (main s) = Some c"
  shows "connections s c \<noteq> None"
proof -
  from assms(2) have "0 < owners s c"
    by (simp add: owners_def)
  with assms(1) show ?thesis
    by (auto simp: owner_inv_def split: if_splits)
qed

lemma holds_mutex:
  "mutex_inv s \<Longrightarrow> i < length (workers s) \<Longrightarrow> holds (workers s ! i) \<Longrightarrow> mutex s = Some (Pool i)"
  by (simp add: mutex_inv_def)

lemma main_holds_mutex: "mutex_inv s \<Longrightarrow> main_holds (main s) \<Longrightarrow> mutex s = Some Main"
  by (simp add: mutex_inv_def)

lemma no_misuse_step:
  assumes pool: "pool_inv args s" and mutex: "mutex_inv s" and owner: "owner_inv s"
    and inv: "\<not> misuse s" and st: "step args s ch = Some s'"
  shows "\<not> misuse s'"
proof (cases ch)
  case (Run t e)
  show ?thesis
  proof (cases t)
    case Main
    with Run st have "step args s (Run Main e) = Some s'"
      by simp
    with pool show ?thesis
    proof (cases rule: main_step_cases)
      case (store server fd c)
      with inv main_held_owner [OF owner, of c] show ?thesis
        by simp
    next
      case (enqueue server c)
      with inv main_holds_mutex [OF mutex] show ?thesis
        by simp
    next
      case (unlock server)
      with inv main_holds_mutex [OF mutex] show ?thesis
        by simp
    qed (use inv in simp_all)
  next
    case (Pool i)
    with Run st have st': "step args s (Run (Pool i) e) = Some s'"
      by simp
    note i = step_bounds(2) [OF st' refl]
    note h = holds_mutex [OF mutex i]
    from st' show ?thesis
    proof (cases rule: worker_step_cases)
      case (free c)
      with inv held_owner [OF owner i, of c] show ?thesis
        by simp
    qed (use inv h in simp_all)
  qed
next
  case (Spurious_wakeup i)
  with st have "step args s (Spurious_wakeup i) = Some s'"
    by simp
  then show ?thesis
    by (cases rule: wakeup_step_cases) (use inv in simp)
next
  case (Handler_returns i uses)
  with st have "step args s (Handler_returns i uses) = Some s'"
    by simp
  then show ?thesis
    by (cases rule: handler_step_cases) (use inv in simp)
next
  case (Handler_killed i uses data n)
  with st have "step args s (Handler_killed i uses data n) = Some s'"
    by simp
  then show ?thesis
    by (cases rule: killed_step_cases) (use inv in simp)
qed

section \<open>Dequeue and dispatch\<close>

lemma by_thread_simps [simp]:
  "by_thread t [] = []"
  "by_thread t (xs @ [(u, c)]) = by_thread t xs @ (if u = t then [c] else [])"
  by (simp_all add: by_thread_def)

lemma is_worker_mono: "is_worker n t \<Longrightarrow> n \<le> m \<Longrightarrow> is_worker m t"
  by (cases t) simp_all

lemma by_thread_none:
  assumes "list_all (\<lambda>x. is_worker n (fst x)) xs" and "n \<le> i"
  shows "by_thread (Pool i) xs = []"
  using assms by (induction xs) (auto simp: by_thread_def)

lemma pending_wake [simp]: "pending (wake st) = pending st"
  by (cases st) simp_all

lemma dispatch_inv_worker_step:
  assumes pool: "pool_inv args s" and inv: "dispatch_inv s"
    and st: "step args s (Run (Pool i) e) = Some s'"
  shows "dispatch_inv s'"
proof -
  note i = step_bounds(2) [OF st refl]
  from pool i have wp: "well_placed (workers s ! i)"
    by (simp add: pool_inv_def well_placed_nth)
  from st show ?thesis
  proof (cases rule: worker_step_cases)
    case lock
    with inv i show ?thesis
      by (auto simp: dispatch_inv_def nth_list_update)
  next
    case dequeue1_empty
    with inv i show ?thesis
      by (auto simp: dispatch_inv_def nth_list_update)
  next
    case (dequeue1 c q)
    with inv i show ?thesis
      by (auto simp: dispatch_inv_def nth_list_update)
  next
    case wait
    with inv i show ?thesis
      by (auto simp: dispatch_inv_def nth_list_update)
  next
    case (reacquire pc pc')
    with wp have "pc = L70" "pc' = L71"
      by simp_all
    with reacquire inv i show ?thesis
      by (auto simp: dispatch_inv_def nth_list_update)
  next
    case dequeue2_empty
    with inv i show ?thesis
      by (auto simp: dispatch_inv_def nth_list_update)
  next
    case (dequeue2 c q)
    with inv i show ?thesis
      by (auto simp: dispatch_inv_def nth_list_update)
  next
    case (unlock d)
    with inv i show ?thesis
      by (cases d) (auto simp: dispatch_inv_def nth_list_update)
  next
    case (call c)
    with inv i show ?thesis
      by (auto simp: dispatch_inv_def nth_list_update)
  next
    case (free c)
    with inv i show ?thesis
      by (auto simp: dispatch_inv_def nth_list_update)
  qed
qed

lemma dispatch_inv_main_step:
  assumes pool: "pool_inv args s" and inv: "dispatch_inv s"
    and st: "step args s (Run Main e) = Some s'"
  shows "dispatch_inv s'"
  using pool st
proof (cases rule: main_step_cases)
  case (spawn a i)
  from inv have none: "by_thread (Pool (length (workers s))) (dequeued s) = []"
    "by_thread (Pool (length (workers s))) (dispatched s) = []"
    by (auto simp: dispatch_inv_def intro: by_thread_none)
  with spawn inv show ?thesis
    by (auto simp: dispatch_inv_def nth_append list_all_iff less_Suc_eq intro: is_worker_mono)
next
  case (signal server k)
  with inv show ?thesis
    by (auto simp: dispatch_inv_def nth_list_update)
qed (use inv in \<open>simp_all add: dispatch_inv_def\<close>)

lemma dispatch_inv_step:
  assumes pool: "pool_inv args s" and inv: "dispatch_inv s" and st: "step args s ch = Some s'"
  shows "dispatch_inv s'"
proof (cases ch)
  case (Run t e)
  show ?thesis
  proof (cases t)
    case Main
    with Run st have "step args s (Run Main e) = Some s'"
      by simp
    then show ?thesis
      by (rule dispatch_inv_main_step [OF pool inv])
  next
    case (Pool i)
    with Run st have "step args s (Run (Pool i) e) = Some s'"
      by simp
    then show ?thesis
      by (rule dispatch_inv_worker_step [OF pool inv])
  qed
next
  case (Spurious_wakeup i)
  with st have "step args s (Spurious_wakeup i) = Some s'"
    by simp
  then show ?thesis
  proof (cases rule: wakeup_step_cases)
    case (wakeup pc)
    with inv step_bounds(3) [OF st Spurious_wakeup] show ?thesis
      by (auto simp: dispatch_inv_def nth_list_update)
  qed
next
  case (Handler_returns i uses)
  with st have "step args s (Handler_returns i uses) = Some s'"
    by simp
  then show ?thesis
  proof (cases rule: handler_step_cases)
    case (returns c)
    with inv step_bounds(4) [OF st Handler_returns] show ?thesis
      by (auto simp: dispatch_inv_def nth_list_update)
  qed
next
  case (Handler_killed i uses data n)
  with st have "step args s (Handler_killed i uses data n) = Some s'"
    by simp
  then show ?thesis
    by (cases rule: killed_step_cases) (use inv in \<open>simp add: dispatch_inv_def\<close>)
qed

section \<open>Progress of the dispatch\<close>

lemma awake_update:
  "i < length ws \<Longrightarrow> \<not> is_blocked st \<Longrightarrow> list_ex (\<lambda>st. \<not> is_blocked st) (ws[i := st])"
  by (auto simp: list_ex_iff set_update_memI)

lemma awake_or_blocked:
  "ws \<noteq> [] \<Longrightarrow> \<not> list_ex is_blocked ws \<Longrightarrow> list_ex (\<lambda>st. \<not> is_blocked st) ws"
  by (cases ws) (auto simp: list_ex_iff)

lemma is_blocked_wake [simp]: "\<not> is_blocked (wake st)"
  by (cases st) simp_all

lemma wake_blocked_At [simp]: "is_blocked st \<Longrightarrow> wake st \<noteq> At pc"
  by (cases st) simp_all

lemma quiet_at_signalling [simp]: "quiet_at st \<Longrightarrow> \<not> signalling st"
proof (induction st rule: signalling.induct)
qed simp_all

lemma quiet_at_in_create [simp]: "in_create st \<Longrightarrow> quiet_at st"
proof (induction st rule: in_create.induct)
qed simp_all

lemma progress_inv_worker_step:
  assumes pool: "pool_inv args s" and inv: "progress_inv s"
    and st: "step args s (Run (Pool i) e) = Some s'"
  shows "progress_inv s'"
proof -
  note i = step_bounds(2) [OF st refl]
  from pool i have wp: "well_placed (workers s ! i)"
    by (simp add: pool_inv_def well_placed_nth)
  from i have ne: "workers s \<noteq> []"
    by auto
  from st show ?thesis
  proof (cases rule: worker_step_cases)
    case lock
    with inv i show ?thesis
      by (auto simp: progress_inv_def nth_list_update awake_update)
  next
    case dequeue1_empty
    with inv i show ?thesis
      by (auto simp: progress_inv_def nth_list_update awake_update)
  next
    case (dequeue1 c q)
    with inv i show ?thesis
      by (auto simp: progress_inv_def nth_list_update awake_update)
  next
    case wait
    with inv i show ?thesis
      by (auto simp: progress_inv_def nth_list_update)
  next
    case (reacquire pc pc')
    with wp have "pc = L70" "pc' = L71"
      by simp_all
    with reacquire inv i show ?thesis
      by (auto simp: progress_inv_def nth_list_update awake_update)
  next
    case dequeue2_empty
    with inv i show ?thesis
      by (auto simp: progress_inv_def nth_list_update awake_update)
  next
    case (dequeue2 c q)
    with inv i show ?thesis
      by (auto simp: progress_inv_def nth_list_update awake_update)
  next
    case (unlock d)
    with inv i show ?thesis
      by (cases d) (auto simp: progress_inv_def nth_list_update awake_update)
  next
    case (call c)
    with inv i show ?thesis
      by (auto simp: progress_inv_def nth_list_update awake_update)
  next
    case (free c)
    with inv i show ?thesis
      by (auto simp: progress_inv_def nth_list_update awake_update)
  qed
qed

lemma progress_inv_main_step:
  assumes pool: "pool_inv args s" and mutex: "mutex_inv s" and queue: "queue_inv s"
    and inv: "progress_inv s" and st: "step args s (Run Main e) = Some s'"
  shows "progress_inv s'"
  using pool st
proof (cases rule: main_step_cases)
  case silent
  with inv show ?thesis
    by (auto simp: progress_inv_def)
next
  case queue_create
  with inv show ?thesis
    by (auto simp: progress_inv_def)
next
  case mutex_init
  with inv show ?thesis
    by (auto simp: progress_inv_def)
next
  case (spawn a i)
  with inv queue show ?thesis
    by (auto simp: progress_inv_def queue_inv_def nth_append)
next
  case dies
  with inv show ?thesis
    by (auto simp: progress_inv_def)
next
  case (calloc server fd c)
  with inv show ?thesis
    by (auto simp: progress_inv_def)
next
  case (store server fd c)
  with inv show ?thesis
    by (auto simp: progress_inv_def)
next
  case (lock server c)
  with inv show ?thesis
    by (auto simp: progress_inv_def)
next
  case (enqueue server c)
  from enqueue(1) mutex have "mutex s = Some Main"
    by (simp add: mutex_inv_def)
  with mutex have "i < length (workers s) \<Longrightarrow> \<not> holds (workers s ! i)" for i
    by (simp add: mutex_inv_def)
  then have "i < length (workers s) \<Longrightarrow> workers s ! i \<noteq> At L70" for i
    by fastforce
  with enqueue inv show ?thesis
    by (simp add: progress_inv_def)
next
  case (signal_none server)
  with inv awake_or_blocked [of "workers s"] show ?thesis
    by (auto simp: progress_inv_def)
next
  case (signal server k)
  with inv show ?thesis
    by (auto simp: progress_inv_def nth_list_update awake_update)
next
  case (unlock server)
  with inv show ?thesis
    by (auto simp: progress_inv_def)
qed

lemma progress_inv_step:
  assumes pool: "pool_inv args s" and mutex: "mutex_inv s" and queue: "queue_inv s"
    and inv: "progress_inv s" and st: "step args s ch = Some s'"
  shows "progress_inv s'"
proof (cases ch)
  case (Run t e)
  show ?thesis
  proof (cases t)
    case Main
    with Run st have "step args s (Run Main e) = Some s'"
      by simp
    then show ?thesis
      by (rule progress_inv_main_step [OF pool mutex queue inv])
  next
    case (Pool i)
    with Run st have "step args s (Run (Pool i) e) = Some s'"
      by simp
    then show ?thesis
      by (rule progress_inv_worker_step [OF pool inv])
  qed
next
  case (Spurious_wakeup i)
  with st have "step args s (Spurious_wakeup i) = Some s'"
    by simp
  then show ?thesis
  proof (cases rule: wakeup_step_cases)
    case (wakeup pc)
    with inv step_bounds(3) [OF st Spurious_wakeup] show ?thesis
      by (auto simp: progress_inv_def nth_list_update awake_update)
  qed
next
  case (Handler_returns i uses)
  with st have "step args s (Handler_returns i uses) = Some s'"
    by simp
  then show ?thesis
  proof (cases rule: handler_step_cases)
    case (returns c)
    with inv step_bounds(4) [OF st Handler_returns] show ?thesis
      by (auto simp: progress_inv_def nth_list_update awake_update)
  qed
next
  case (Handler_killed i uses data n)
  with st have "step args s (Handler_killed i uses data n) = Some s'"
    by simp
  then show ?thesis
    by (cases rule: killed_step_cases) (use inv in \<open>simp add: progress_inv_def\<close>)
qed

section \<open>No wakeup is lost\<close>

lemma wakeup_inv_empty: "pool_queue s = [] \<Longrightarrow> wakeup_inv s"
  by (simp add: wakeup_inv_def)

lemma blocked_update:
  "list_ex is_blocked (ws[i := st]) \<Longrightarrow> \<not> is_blocked st \<Longrightarrow> list_ex is_blocked ws"
  by (auto simp: list_ex_iff dest: set_update_subset_insert [THEN subsetD])

lemma wakeup_inv_update:
  assumes inv: "wakeup_inv s" and i: "i < length (workers s)"
    and w: "workers s' = (workers s)[i := st]"
    and m: "signalling (main s') = signalling (main s)"
    and nb: "\<not> is_blocked st"
    and bal: "length (pool_queue s') + (if seeking (workers s ! i) then 1 else 0)
        \<le> length (pool_queue s) + (if seeking st then 1 else 0)"
  shows "wakeup_inv s'"
  unfolding wakeup_inv_def
proof
  assume "list_ex is_blocked (workers s')"
  with w nb have "list_ex is_blocked (workers s)"
    by (auto dest: blocked_update)
  with inv have "length (pool_queue s)
      \<le> length (filter seeking (workers s)) + (if signalling (main s) then 1 else 0)"
    by (simp add: wakeup_inv_def)
  moreover note holders_update [OF i, of seeking st] bal
  ultimately show "length (pool_queue s')
      \<le> length (filter seeking (workers s')) + (if signalling (main s') then 1 else 0)"
    unfolding w m by (simp split: if_splits)
qed

lemma wakeup_inv_worker_step:
  assumes pool: "pool_inv args s" and progress: "progress_inv s" and inv: "wakeup_inv s"
    and st: "step args s (Run (Pool i) e) = Some s'"
  shows "wakeup_inv s'"
proof -
  note i = step_bounds(2) [OF st refl]
  from pool i have wp: "well_placed (workers s ! i)"
    by (simp add: pool_inv_def well_placed_nth)
  from st show ?thesis
  proof (cases rule: worker_step_cases)
    case lock
    then show ?thesis
      by (intro wakeup_inv_update [OF inv i, of _ "At L68"]) simp_all
  next
    case dequeue1_empty
    then show ?thesis
      by (intro wakeup_inv_empty) simp
  next
    case (dequeue1 c q)
    then show ?thesis
      by (intro wakeup_inv_update [OF inv i, of _ "At (L73 (Some c))"]) simp_all
  next
    case wait
    with progress i have "pool_queue s = []"
      by (simp add: progress_inv_def)
    with wait show ?thesis
      by (intro wakeup_inv_empty) simp
  next
    case (reacquire pc pc')
    with wp have "pc' = L71"
      by simp
    with reacquire show ?thesis
      by (intro wakeup_inv_update [OF inv i, of _ "At L71"]) simp_all
  next
    case dequeue2_empty
    then show ?thesis
      by (intro wakeup_inv_empty) simp
  next
    case (dequeue2 c q)
    then show ?thesis
      by (intro wakeup_inv_update [OF inv i, of _ "At (L73 (Some c))"]) simp_all
  next
    case (unlock d)
    then show ?thesis
      by (intro wakeup_inv_update [OF inv i,
            of _ "At (case d of None \<Rightarrow> L67 | Some c \<Rightarrow> L75 c)"])
        (simp_all split: option.splits)
  next
    case (call c)
    then show ?thesis
      by (intro wakeup_inv_update [OF inv i, of _ "In_handler (L75 c)"]) simp_all
  next
    case (free c)
    then show ?thesis
      by (intro wakeup_inv_update [OF inv i, of _ "At L67"]) simp_all
  qed
qed

lemma wakeup_inv_main_step:
  assumes pool: "pool_inv args s" and inv: "wakeup_inv s"
    and st: "step args s (Run Main e) = Some s'"
  shows "wakeup_inv s'"
  using pool st
proof (cases rule: main_step_cases)
  case silent
  with inv show ?thesis
    by (simp add: wakeup_inv_def)
next
  case queue_create
  then show ?thesis
    by (intro wakeup_inv_empty) simp
next
  case mutex_init
  with inv show ?thesis
    by (simp add: wakeup_inv_def)
next
  case (spawn a i)
  with inv show ?thesis
    by (auto simp: wakeup_inv_def)
next
  case dies
  with inv show ?thesis
    by (simp add: wakeup_inv_def)
next
  case (calloc server fd c)
  with inv show ?thesis
    by (simp add: wakeup_inv_def)
next
  case (store server fd c)
  with inv show ?thesis
    by (simp add: wakeup_inv_def)
next
  case (lock server c)
  with inv show ?thesis
    by (simp add: wakeup_inv_def)
next
  case (enqueue server c)
  with inv show ?thesis
    by (simp add: wakeup_inv_def)
next
  case (signal_none server)
  then show ?thesis
    by (simp add: wakeup_inv_def)
next
  case (signal server k)
  from signal(3) obtain pc where pc: "workers s ! k = Blocked pc"
    by (cases "workers s ! k") simp_all
  from signal(2,3) have "list_ex is_blocked (workers s)"
    by (auto simp: list_ex_iff)
  with inv signal(1) have "length (pool_queue s) \<le> length (filter seeking (workers s)) + 1"
    by (simp add: wakeup_inv_def)
  moreover from holders_update [OF signal(2), of seeking "Woken pc"] pc
  have "length (filter seeking ((workers s)[k := Woken pc])) = length (filter seeking (workers s)) + 1"
    by simp
  ultimately show ?thesis
    using signal(4) pc by (simp add: wakeup_inv_def)
next
  case (unlock server)
  with inv show ?thesis
    by (simp add: wakeup_inv_def)
qed

lemma wakeup_inv_step:
  assumes pool: "pool_inv args s" and progress: "progress_inv s" and inv: "wakeup_inv s"
    and st: "step args s ch = Some s'"
  shows "wakeup_inv s'"
proof (cases ch)
  case (Run t e)
  show ?thesis
  proof (cases t)
    case Main
    with Run st have "step args s (Run Main e) = Some s'"
      by simp
    then show ?thesis
      by (rule wakeup_inv_main_step [OF pool inv])
  next
    case (Pool i)
    with Run st have "step args s (Run (Pool i) e) = Some s'"
      by simp
    then show ?thesis
      by (rule wakeup_inv_worker_step [OF pool progress inv])
  qed
next
  case (Spurious_wakeup i)
  with st have st': "step args s (Spurious_wakeup i) = Some s'"
    by simp
  note i = step_bounds(3) [OF st Spurious_wakeup]
  from st' show ?thesis
  proof (cases rule: wakeup_step_cases)
    case (wakeup pc)
    then show ?thesis
      by (intro wakeup_inv_update [OF inv i, of _ "Woken pc"]) simp_all
  qed
next
  case (Handler_returns i uses)
  with st have st': "step args s (Handler_returns i uses) = Some s'"
    by simp
  note i = step_bounds(4) [OF st Handler_returns]
  from st' show ?thesis
  proof (cases rule: handler_step_cases)
    case (returns c)
    then show ?thesis
      by (intro wakeup_inv_update [OF inv i, of _ "At (L76 c)"]) simp_all
  qed
next
  case (Handler_killed i uses data n)
  with st have "step args s (Handler_killed i uses data n) = Some s'"
    by simp
  then show ?thesis
    by (cases rule: killed_step_cases) (use inv in \<open>simp add: wakeup_inv_def\<close>)
qed

section \<open>The invariants hold in every reachable state\<close>

lemma invariant_init: "invariant args init"
  by (simp add: invariant_def init_def pool_inv_def mutex_inv_def queue_inv_def owner_inv_def
      owners_def dispatch_inv_def progress_inv_def wakeup_inv_def)

lemma invariant_step:
  assumes inv: "invariant args s" and st: "step args s ch = Some s'"
  shows "invariant args s'"
proof -
  from inv have pool: "pool_inv args s" and mutex: "mutex_inv s" and queue: "queue_inv s"
    and owner: "owner_inv s" and dispatch: "dispatch_inv s" and progress: "progress_inv s"
    and wakeup: "wakeup_inv s" and misuse: "\<not> misuse s"
    by (simp_all add: invariant_def)
  have "pool_inv args s'"
    by (rule pool_inv_step [OF pool st])
  moreover have "mutex_inv s'"
    by (rule mutex_inv_step [OF pool mutex st])
  moreover have "queue_inv s'"
    by (rule queue_inv_step [OF pool queue st])
  moreover have "owner_inv s'"
    by (rule owner_inv_step [OF pool queue owner st])
  moreover have "dispatch_inv s'"
    by (rule dispatch_inv_step [OF pool dispatch st])
  moreover have "progress_inv s'"
    by (rule progress_inv_step [OF pool mutex queue progress st])
  moreover have "wakeup_inv s'"
    by (rule wakeup_inv_step [OF pool progress wakeup st])
  moreover have "\<not> misuse s'"
    by (rule no_misuse_step [OF pool mutex owner misuse st])
  ultimately show ?thesis
    by (simp add: invariant_def)
qed

lemma reachable_invariant:
  assumes "reachable args s"
  shows "invariant args s"
  using assms
proof (induction rule: reachable_induct)
  case init
  show ?case
    by (rule invariant_init)
next
  case (step s ch s')
  then show ?case
    by (blast intro: invariant_step)
qed

section \<open>The calls of \<open>stream_server_create\<close>, in order\<close>

lemma run_local_append:
  "run_local prog pc (as @ bs) =
     (case run_local prog pc as of
        (cs, Goes pc') \<Rightarrow> (case run_local prog pc' bs of (ds, r) \<Rightarrow> (cs @ ds, r))
      | (cs, Ends) \<Rightarrow> (cs, Ends)
      | (cs, Stuck) \<Rightarrow> (cs, Stuck))"
  by (induction as arbitrary: pc) (auto split: resumed.splits prod.splits)

lemma spawn_loop:
  assumes "unat (thread_pool_size args) - unat i = k" and "i \<le> thread_pool_size args"
  shows "run_local (stream_server_create args) (C96 (Some a) i) (replicate (2 * k + 1) No_answer)
       = (spawn_calls (unat i) (unat (thread_pool_size args)) @ [Local], Goes C100)"
  using assms
proof (induction k arbitrary: i)
  case 0
  then have "unat i = unat (thread_pool_size args)"
    by (simp add: word_le_nat_alt)
  then have "\<not> i < thread_pool_size args"
    by (simp add: word_less_nat_alt)
  with \<open>unat i = unat (thread_pool_size args)\<close> show ?case
    by (simp add: spawn_calls_def)
next
  case (Suc k)
  then have less: "i < thread_pool_size args"
    by (simp add: word_less_nat_alt)
  note nw = next_worker [OF less]
  from Suc.prems nw have "unat (thread_pool_size args) - unat (i + 1) = k"
    by simp
  from Suc.IH [OF this nw(2)] less nw(1) show ?case
    by (simp add: spawn_calls_def upt_conv_Cons word_less_nat_alt)
qed

lemma create_run:
  assumes "0 \<le> sint fd" "0 \<le> sint s1" "0 \<le> sint s2" "0 \<le> sint s3"
  shows "run_local (stream_server_create args) C86
           ([Ptr_answer (Some p), No_answer, No_answer, No_answer, Ptr_answer (Some a)]
            @ replicate (2 * unat (thread_pool_size args) + 1) No_answer
            @ [Int_answer fd, Int_answer s1, Int_answer s2, Int_answer s3])
       = ([Calloc Server_struct, Dynamic_queue_create, Pthread_mutex_init, Pthread_cond_init,
           Calloc (Thread_array (thread_pool_size args))]
          @ spawn_calls 0 (unat (thread_pool_size args)) @ [Local]
          @ [Socket, Setsockopt fd, Bind fd (port args), Listen fd (max_waiting_connections args)],
          Goes (C117 fd))"
proof -
  have loop: "run_local (stream_server_create args) (C96 (Some a) 0)
      (replicate (2 * unat (thread_pool_size args) + 1) No_answer)
    = (spawn_calls 0 (unat (thread_pool_size args)) @ [Local], Goes C100)"
    using spawn_loop [of args 0 "unat (thread_pool_size args)" a] by simp
  from assms have tail: "run_local (stream_server_create args) C100
      [Int_answer fd, Int_answer s1, Int_answer s2, Int_answer s3]
    = ([Socket, Setsockopt fd, Bind fd (port args), Listen fd (max_waiting_connections args)],
       Goes (C117 fd))"
    by (simp add: CHECK_IF_INVALID_def)
  have head: "run_local (stream_server_create args) C86
      [Ptr_answer (Some p), No_answer, No_answer, No_answer, Ptr_answer (Some a)]
    = ([Calloc Server_struct, Dynamic_queue_create, Pthread_mutex_init, Pthread_cond_init,
        Calloc (Thread_array (thread_pool_size args))], Goes (C96 (Some a) 0))"
    by simp
  let ?P = "stream_server_create args"
  let ?A = "[Ptr_answer (Some p), No_answer, No_answer, No_answer, Ptr_answer (Some a)]"
  let ?B = "replicate (2 * unat (thread_pool_size args) + 1) No_answer"
  let ?C = "[Int_answer fd, Int_answer s1, Int_answer s2, Int_answer s3]"
  have "run_local ?P (C96 (Some a) 0) (?B @ ?C)
      = (spawn_calls 0 (unat (thread_pool_size args)) @ [Local]
         @ [Socket, Setsockopt fd, Bind fd (port args), Listen fd (max_waiting_connections args)],
         Goes (C117 fd))"
    by (simp only: run_local_append [of ?P _ ?B ?C] loop tail prod.case resumed.case
        append_assoc)
  then show ?thesis
    by (simp only: run_local_append [of ?P _ ?A "?B @ ?C"] head prod.case resumed.case
        append_assoc)
qed

section \<open>Runs and bounds\<close>

lemma run_reachable: "run args init chs = Some s \<Longrightarrow> reachable args s"
  by (auto simp: reachable_def)

lemma run_the: "run args s chs \<noteq> None \<Longrightarrow> run args s chs = Some (the (run args s chs))"
  by simp

lemma fst_run_local_Cons:
  "fst (run_local prog pc (a # as)) =
     fst (prog pc) # (case resume (snd (prog pc)) a of
                        Goes pc' \<Rightarrow> fst (run_local prog pc' as)
                      | Ends \<Rightarrow> []
                      | Stuck \<Rightarrow> [])"
  by (simp split: resumed.splits prod.splits)

lemma count_bound:
  assumes step: "\<And>pc a pc'. resume (snd (prog pc)) a = Goes pc' \<Longrightarrow>
      w pc' + (if P (fst (prog pc)) then 1 else 0) \<le> w pc"
    and last: "\<And>pc. P (fst (prog pc)) \<Longrightarrow> 1 \<le> w pc"
  shows "length (filter P (fst (run_local prog pc as))) \<le> (w pc :: nat)"
proof (induction as arbitrary: pc)
  case Nil
  then show ?case by simp
next
  case (Cons a as)
  show ?case
  proof (cases "resume (snd (prog pc)) a")
    case (Goes pc')
    from Cons.IH [of pc'] step [OF Goes] Goes show ?thesis
      by (auto simp: fst_run_local_Cons simp del: run_local.simps split: if_splits)
  next
    case Ends
    with last [of pc] show ?thesis
      by (simp add: fst_run_local_Cons del: run_local.simps)
  next
    case Stuck
    with last [of pc] show ?thesis
      by (simp add: fst_run_local_Cons del: run_local.simps)
  qed
qed

lemma loop_calls_decrease:
  assumes "resume (snd (stream_server_loop pc)) a = Goes pc'"
  shows "calls_left pc' < calls_left pc" and "accepts_left pc' + (if is_accept (fst (stream_server_loop pc)) then 1 else 0) \<le> accepts_left pc"
  using assms
  by (cases pc; cases a; auto simp: CHECK_IF_INVALID_def split: option.splits if_splits)+

lemma calls_left_bound:
  "length (fst (run_local stream_server_loop pc as)) \<le> calls_left pc"
proof -
  have "length (filter (\<lambda>c. True) (fst (run_local stream_server_loop pc as))) \<le> calls_left pc"
  proof (rule count_bound)
    fix pc a pc'
    assume "resume (snd (stream_server_loop pc)) a = Goes pc'"
    from loop_calls_decrease(1) [OF this]
    show "calls_left pc' + (if True then 1 else 0) \<le> calls_left pc"
      by simp
  next
    fix pc
    show "1 \<le> calls_left pc"
      by (cases pc) simp_all
  qed
  then show ?thesis
    by simp
qed

lemma accepts_left_bound:
  "length (filter is_accept (fst (run_local stream_server_loop pc as))) \<le> accepts_left pc"
proof (rule count_bound)
  fix pc a pc'
  assume "resume (snd (stream_server_loop pc)) a = Goes pc'"
  then show "accepts_left pc' + (if is_accept (fst (stream_server_loop pc)) then 1 else 0)
      \<le> accepts_left pc"
    by (rule loop_calls_decrease(2))
next
  fix pc
  assume "is_accept (fst (stream_server_loop pc))"
  then show "1 \<le> accepts_left pc"
    by (cases pc) (auto split: option.splits)
qed

section \<open>Progress: the queue can always be served\<close>

lemma run_append:
  "run args s (as @ bs) = (case run args s as of None \<Rightarrow> None | Some s' \<Rightarrow> run args s' bs)"
  by (induction as arbitrary: s) (auto split: option.splits)

lemma serve_append:
  "serve args s (as @ bs)
     = (case serve args s as of None \<Rightarrow> None | Some s' \<Rightarrow> serve args s' bs)"
  by (induction as arbitrary: s) (auto split: option.splits)

lemma serve_run: "serve args s chs = Some s' \<Longrightarrow> run args s chs = Some s'"
  by (induction chs arbitrary: s) (auto split: option.splits if_splits)

lemma leads_refl: "leads args s s"
  unfolding leads_def by (rule exI [of _ "[]"]) simp

lemma leads_trans:
  assumes "leads args s s'" and "leads args s' s''"
  shows "leads args s s''"
proof -
  from assms obtain as bs where "serve args s as = Some s'" "serve args s' bs = Some s''"
    by (auto simp: leads_def)
  then have "serve args s (as @ bs) = Some s''"
    by (simp add: serve_append)
  then show ?thesis
    unfolding leads_def by blast
qed

lemma leads_serve:
  assumes "serve args s chs = Some s'"
  shows "leads args s s'"
  using assms unfolding leads_def by blast

lemma leads_serveI:
  assumes "\<exists>s'. serve args s chs = Some s' \<and> P s'"
  shows "\<exists>s'. leads args s s' \<and> P s'"
  using assms unfolding leads_def by blast

lemma run_invariant:
  assumes "invariant args s" and "run args s chs = Some s'"
  shows "invariant args s'"
  using assms
proof (induction chs arbitrary: s)
  case Nil
  then show ?case
    by simp
next
  case (Cons ch chs)
  from Cons.prems(2) obtain s1 where "step args s ch = Some s1" "run args s1 chs = Some s'"
    by (auto split: option.splits)
  with Cons.prems(1) Cons.IH show ?case
    by (blast intro: invariant_step)
qed

lemma leads_invariant:
  "invariant args s \<Longrightarrow> leads args s s' \<Longrightarrow> invariant args s'"
  unfolding leads_def by (blast intro: run_invariant serve_run)

text \<open>One turn of the loop of a worker that finds a handle in the queue.\<close>

lemma takes_one:
  assumes "idle_at j s" and "pool_queue s = c # q"
  shows "\<exists>s'. leads args s s' \<and> idle_at j s' \<and> pool_queue s' = q
    \<and> length (workers s') = length (workers s)"
proof -
  let ?e = "\<lparr>env_int = 0, env_ptr = None, env_wake = 0\<rparr>"
  let ?chs = "[Run (Pool j) ?e, Run (Pool j) ?e, Run (Pool j) ?e, Run (Pool j) ?e,
    Handler_returns j [], Run (Pool j) ?e]"
  from assms have "\<exists>s'. serve args s ?chs = Some s' \<and> idle_at j s' \<and> pool_queue s' = q
    \<and> length (workers s') = length (workers s)"
    by (simp add: idle_at_def step_def thread_step_def handler_done_def)
  then show ?thesis
    by (rule leads_serveI)
qed

text \<open>A worker at the top of its loop, with the mutex free, can empty the queue.\<close>

lemma empties_queue:
  assumes "idle_at j s"
  shows "\<exists>s'. leads args s s' \<and> idle_at j s' \<and> pool_queue s' = []
    \<and> length (workers s') = length (workers s)"
  using assms
proof (induction "pool_queue s" arbitrary: s)
  case Nil
  then show ?case
    by (auto intro: leads_refl)
next
  case (Cons c q)
  from takes_one [OF Cons.prems Cons.hyps(2) [symmetric], of args]
  obtain s1 where s1: "leads args s s1" "idle_at j s1" "pool_queue s1 = q"
    "length (workers s1) = length (workers s)"
    by blast
  from Cons.hyps(1) [of s1] s1 obtain s' where "leads args s1 s'" "idle_at j s'"
    "pool_queue s' = []" "length (workers s') = length (workers s1)"
    by auto
  with s1 show ?case
    by (auto intro: leads_trans)
qed

text \<open>A worker that is not blocked and does not hold the mutex comes to the top of its loop.\<close>

lemma comes_round:
  assumes "j < length (workers s)" and "\<not> terminated s" and "mutex s = None"
    and "well_placed (workers s ! j)" and "\<not> is_blocked (workers s ! j)"
    and "\<not> holds (workers s ! j)"
  shows "\<exists>s'. leads args s s' \<and> idle_at j s' \<and> length (workers s') = length (workers s)"
proof -
  let ?e = "\<lparr>env_int = 0, env_ptr = None, env_wake = 0\<rparr>"
  let ?P = "\<lambda>s'. idle_at j s' \<and> length (workers s') = length (workers s)"
  show ?thesis
  proof (cases "workers s ! j")
    case (At pc)
    show ?thesis
    proof (cases pc)
      case L67
      with At assms have "?P s"
        by (simp add: idle_at_def)
      then show ?thesis
        by (blast intro: leads_refl)
    next
      case (L75 c)
      with At assms
      have "\<exists>s'. serve args s [Run (Pool j) ?e, Handler_returns j [], Run (Pool j) ?e] = Some s'
          \<and> ?P s'"
        by (simp add: idle_at_def step_def thread_step_def handler_done_def)
      then show ?thesis
        by (rule leads_serveI)
    next
      case (L76 c)
      with At assms
      have "\<exists>s'. serve args s [Run (Pool j) ?e] = Some s' \<and> ?P s'"
        by (simp add: idle_at_def step_def thread_step_def handler_done_def)
      then show ?thesis
        by (rule leads_serveI)
    qed (use At assms in simp_all)
  next
    case (Woken pc)
    with assms have pc: "pc = L70"
      by simp
    show ?thesis
    proof (cases "pool_queue s")
      case Nil
      with Woken pc assms
      have "\<exists>s'. serve args s [Run (Pool j) ?e, Run (Pool j) ?e, Run (Pool j) ?e] = Some s'
          \<and> ?P s'"
        by (simp add: idle_at_def step_def thread_step_def handler_done_def)
      then show ?thesis
        by (rule leads_serveI)
    next
      case (Cons c q)
      with Woken pc assms
      have "\<exists>s'. serve args s [Run (Pool j) ?e, Run (Pool j) ?e, Run (Pool j) ?e,
            Run (Pool j) ?e, Handler_returns j [], Run (Pool j) ?e] = Some s'
          \<and> ?P s'"
        by (simp add: idle_at_def step_def thread_step_def handler_done_def)
      then show ?thesis
        by (rule leads_serveI)
    qed
  next
    case (In_handler pc)
    with assms obtain c where "pc = L75 c"
      by (cases pc) simp_all
    with In_handler assms
    have "\<exists>s'. serve args s [Handler_returns j [], Run (Pool j) ?e] = Some s' \<and> ?P s'"
      by (simp add: idle_at_def step_def thread_step_def handler_done_def)
    then show ?thesis
      by (rule leads_serveI)
  qed (use assms in simp_all)
qed


text \<open>Whoever holds the mutex releases it within three of its own steps.\<close>

lemma blocked_worker:
  assumes "list_ex is_blocked ws"
  obtains k where "k < length ws" "is_blocked (ws ! k)"
  using assms by (auto simp: list_ex_iff in_set_conv_nth)

lemma main_releases:
  assumes "\<not> terminated s" and "mutex s = Some Main" and "main_holds (main s)"
  shows "\<exists>s'. leads args s s' \<and> \<not> terminated s' \<and> mutex s' = None
    \<and> length (workers s') = length (workers s)"
proof -
  let ?e = "\<lparr>env_int = 0, env_ptr = None, env_wake = 0\<rparr>"
  let ?P = "\<lambda>s'. \<not> terminated s' \<and> mutex s' = None \<and> length (workers s') = length (workers s)"
  obtain e :: env where e: "list_ex is_blocked (workers s) \<longrightarrow>
      env_wake e < length (workers s) \<and> is_blocked (workers s ! env_wake e)"
  proof (cases "list_ex is_blocked (workers s)")
    case True
    then obtain k where "k < length (workers s)" "is_blocked (workers s ! k)"
      by (rule blocked_worker)
    then show ?thesis
      by (intro that [of "\<lparr>env_int = 0, env_ptr = None, env_wake = k\<rparr>"]) simp
  next
    case False
    then show ?thesis
      by (intro that [of ?e]) simp
  qed
  from assms(3) show ?thesis
  proof (cases rule: main_holds.elims(2))
    case (1 server c)
    with assms e have "\<exists>s'. serve args s [Run Main ?e, Run Main e, Run Main ?e] = Some s' \<and> ?P s'"
      by (simp add: step_def thread_step_def dynamic_queue_enqueue_def)
    then show ?thesis
      by (rule leads_serveI)
  next
    case (2 server)
    with assms e have "\<exists>s'. serve args s [Run Main e, Run Main ?e] = Some s' \<and> ?P s'"
      by (simp add: step_def thread_step_def)
    then show ?thesis
      by (rule leads_serveI)
  next
    case (3 server)
    with assms have "\<exists>s'. serve args s [Run Main ?e] = Some s' \<and> ?P s'"
      by (simp add: step_def thread_step_def)
    then show ?thesis
      by (rule leads_serveI)
  qed
qed

lemma worker_releases:
  assumes "\<not> terminated s" and "mutex s = Some (Pool i)" and "i < length (workers s)"
    and "holds (workers s ! i)"
  shows "\<exists>s'. leads args s s' \<and> \<not> terminated s' \<and> mutex s' = None
    \<and> length (workers s') = length (workers s)"
proof -
  let ?e = "\<lparr>env_int = 0, env_ptr = None, env_wake = 0\<rparr>"
  let ?P = "\<lambda>s'. \<not> terminated s' \<and> mutex s' = None \<and> length (workers s') = length (workers s)"
  from assms(4) show ?thesis
  proof (cases rule: holds.elims(2))
    case 1
    with assms have "\<exists>s'. serve args s [Run (Pool i) ?e, Run (Pool i) ?e] = Some s' \<and> ?P s'"
      by (cases "pool_queue s") (simp_all add: step_def thread_step_def)
    then show ?thesis
      by (rule leads_serveI)
  next
    case 2
    with assms have "\<exists>s'. serve args s [Run (Pool i) ?e] = Some s' \<and> ?P s'"
      by (simp add: step_def thread_step_def)
    then show ?thesis
      by (rule leads_serveI)
  next
    case 3
    with assms have "\<exists>s'. serve args s [Run (Pool i) ?e, Run (Pool i) ?e] = Some s' \<and> ?P s'"
      by (cases "pool_queue s") (simp_all add: step_def thread_step_def)
    then show ?thesis
      by (rule leads_serveI)
  next
    case (4 d)
    with assms have "\<exists>s'. serve args s [Run (Pool i) ?e] = Some s' \<and> ?P s'"
      by (simp add: step_def thread_step_def)
    then show ?thesis
      by (rule leads_serveI)
  qed
qed

lemma mutex_released:
  assumes "mutex_inv s" and "\<not> terminated s"
  shows "\<exists>s'. leads args s s' \<and> \<not> terminated s' \<and> mutex s' = None
    \<and> length (workers s') = length (workers s)"
proof (cases "mutex s")
  case None
  with assms show ?thesis
    by (blast intro: leads_refl)
next
  case (Some t)
  show ?thesis
  proof (cases t)
    case Main
    with Some assms(1) have "main_holds (main s)"
      by (simp add: mutex_inv_def)
    with Some Main assms(2) show ?thesis
      by (intro main_releases) simp_all
  next
    case (Pool i)
    with Some assms(1) have "i < length (workers s)" "holds (workers s ! i)"
      by (simp_all add: mutex_inv_def)
    with Some Pool assms(2) show ?thesis
      by (intro worker_releases [of s i]) simp_all
  qed
qed


text \<open>
  With the mutex free, every worker that has dequeued a handle is at the call of the
  handler, and makes it.
\<close>

lemma hands_over:
  assumes "mutex s = None" and "\<not> terminated s"
    and "\<forall>i < length (workers s). \<not> holds (workers s ! i)"
    and "n \<le> length (workers s)"
  shows "\<exists>s'. leads args s s' \<and> mutex s' = None \<and> \<not> terminated s'
    \<and> pool_queue s' = pool_queue s \<and> length (workers s') = length (workers s)
    \<and> (\<forall>i < length (workers s'). \<not> holds (workers s' ! i))
    \<and> (\<forall>i < n. pending (workers s' ! i) = [])"
  using assms(4)
proof (induction n)
  case 0
  with assms show ?case
    by (auto intro: leads_refl)
next
  case (Suc n)
  then obtain s1 where s1: "leads args s s1" "mutex s1 = None" "\<not> terminated s1"
    "pool_queue s1 = pool_queue s" "length (workers s1) = length (workers s)"
    "\<forall>i < length (workers s1). \<not> holds (workers s1 ! i)"
    "\<forall>i < n. pending (workers s1 ! i) = []"
    by auto
  from Suc.prems s1(5) have n: "n < length (workers s1)"
    by simp
  show ?case
  proof (cases "pending (workers s1 ! n) = []")
    case True
    with s1 show ?thesis
      by (auto simp: less_Suc_eq)
  next
    case False
    from n s1(6) have "\<not> holds (workers s1 ! n)"
      by simp
    with False obtain c where c: "workers s1 ! n = At (L75 c)"
      by (cases "workers s1 ! n" rule: pending.cases) auto
    let ?e = "\<lparr>env_int = 0, env_ptr = None, env_wake = 0\<rparr>"
    let ?s2 = "s1\<lparr>dispatched := dispatched s1 @ [(Pool n, c)],
      workers := (workers s1)[n := In_handler (L75 c)]\<rparr>"
    from n c s1(3) have "serve args s1 [Run (Pool n) ?e] = Some ?s2"
      by (simp add: step_def thread_step_def)
    then have "leads args s1 ?s2"
      by (rule leads_serve)
    with s1(1) have "leads args s ?s2"
      by (rule leads_trans)
    moreover from s1 n have "\<forall>i < length (workers ?s2). \<not> holds (workers ?s2 ! i)"
      by (simp add: nth_list_update)
    moreover from s1 n have "\<forall>i < Suc n. pending (workers ?s2 ! i) = []"
      by (simp add: nth_list_update less_Suc_eq)
    ultimately show ?thesis
      using s1 by (intro exI [of _ ?s2]) simp
  qed
qed

text \<open>The history of the enqueues grows at the end only.\<close>

lemma step_enqueued:
  assumes "pool_inv args s" and "step args s ch = Some s'"
  shows "\<exists>zs. enqueued s' = enqueued s @ zs"
proof (cases ch)
  case (Run t e)
  show ?thesis
  proof (cases t)
    case Main
    with Run assms(2) have "step args s (Run Main e) = Some s'"
      by simp
    with assms(1) show ?thesis
      by (cases rule: main_step_cases) simp_all
  next
    case (Pool i)
    with Run assms(2) have "step args s (Run (Pool i) e) = Some s'"
      by simp
    then show ?thesis
      by (cases rule: worker_step_cases) simp_all
  qed
next
  case (Spurious_wakeup i)
  with assms(2) have "step args s (Spurious_wakeup i) = Some s'"
    by simp
  then show ?thesis
    by (cases rule: wakeup_step_cases) simp_all
next
  case (Handler_returns i uses)
  with assms(2) have "step args s (Handler_returns i uses) = Some s'"
    by simp
  then show ?thesis
    by (cases rule: handler_step_cases) simp_all
next
  case (Handler_killed i uses data n)
  with assms(2) have "step args s (Handler_killed i uses data n) = Some s'"
    by simp
  then show ?thesis
    by (cases rule: killed_step_cases) simp_all
qed

lemma run_enqueued:
  assumes "invariant args s" and "run args s chs = Some s'"
  shows "\<exists>zs. enqueued s' = enqueued s @ zs"
  using assms
proof (induction chs arbitrary: s)
  case Nil
  then show ?case
    by simp
next
  case (Cons ch chs)
  from Cons.prems(2) obtain s1 where s1: "step args s ch = Some s1" "run args s1 chs = Some s'"
    by (auto split: option.splits)
  from Cons.prems(1) have "pool_inv args s"
    by (simp add: invariant_def)
  from step_enqueued [OF this s1(1)] obtain zs where "enqueued s1 = enqueued s @ zs"
    by blast
  moreover from Cons.prems(1) s1(1) have "invariant args s1"
    by (rule invariant_step)
  from Cons.IH [OF this s1(2)] obtain ys where "enqueued s' = enqueued s1 @ ys"
    by blast
  ultimately show ?case
    by simp
qed

lemma leads_enqueued:
  assumes "invariant args s" and "leads args s s'"
  shows "take (length (enqueued s)) (enqueued s') = enqueued s"
proof -
  from assms(2) obtain chs where "run args s chs = Some s'"
    by (auto simp: leads_def dest: serve_run)
  from run_enqueued [OF assms(1) this] show ?thesis
    by auto
qed

text \<open>From every state of the running process with a worker, the queue can be served.\<close>

lemma can_be_served:
  assumes inv: "invariant args s" and run: "\<not> terminated s" and pool: "workers s \<noteq> []"
  shows "\<exists>s'. leads args s s' \<and> served s' \<and> \<not> terminated s'"
proof -
  from inv have "mutex_inv s"
    by (simp add: invariant_def)
  from mutex_released [OF this run, of args]
  obtain s1 where s1: "leads args s s1" "\<not> terminated s1" "mutex s1 = None"
    "length (workers s1) = length (workers s)"
    by blast
  from inv s1(1) have inv1: "invariant args s1"
    by (rule leads_invariant)
  then have m1: "mutex_inv s1" and p1: "progress_inv s1" and w1: "pool_inv args s1"
    by (simp_all add: invariant_def)
  have "\<exists>s2. leads args s1 s2 \<and> \<not> terminated s2 \<and> mutex s2 = None \<and> pool_queue s2 = []"
  proof (cases "pool_queue s1 = []")
    case True
    with s1 show ?thesis
      by (blast intro: leads_refl)
  next
    case False
    from m1 s1(3) have "\<not> main_holds (main s1)"
      by (simp add: mutex_inv_def)
    then have "\<not> signalling (main s1)"
      by (cases "main s1" rule: signalling.cases) auto
    moreover from pool s1(4) have "workers s1 \<noteq> []"
      by auto
    ultimately have "list_ex (\<lambda>st. \<not> is_blocked st) (workers s1)"
      using p1 False by (simp add: progress_inv_def)
    then obtain j where j: "j < length (workers s1)" "\<not> is_blocked (workers s1 ! j)"
      by (auto simp: list_ex_iff in_set_conv_nth)
    from m1 s1(3) j(1) have "\<not> holds (workers s1 ! j)"
      by (simp add: mutex_inv_def)
    moreover from w1 j(1) have "well_placed (workers s1 ! j)"
      by (simp add: pool_inv_def list_all_length)
    ultimately obtain s2 where s2: "leads args s1 s2" "idle_at j s2"
      using comes_round [OF j(1) s1(2,3), of args] j(2) by blast
    from empties_queue [OF s2(2), of args] obtain s3 where "leads args s2 s3" "idle_at j s3"
      "pool_queue s3 = []"
      by blast
    with s2(1) show ?thesis
      by (auto simp: idle_at_def intro: leads_trans)
  qed
  then obtain s2 where s2: "leads args s1 s2" "\<not> terminated s2" "mutex s2 = None"
    "pool_queue s2 = []"
    by blast
  from inv1 s2(1) have "invariant args s2"
    by (rule leads_invariant)
  then have "mutex_inv s2"
    by (simp add: invariant_def)
  with s2(3) have "\<forall>i < length (workers s2). \<not> holds (workers s2 ! i)"
    by (simp add: mutex_inv_def)
  from hands_over [OF s2(3) s2(2) this order_refl, of args]
  obtain s3 where s3: "leads args s2 s3" "\<not> terminated s3" "pool_queue s3 = pool_queue s2"
    "\<forall>i < length (workers s3). pending (workers s3 ! i) = []"
    by auto
  from s3(3,4) s2(4) have "served s3"
    by (simp add: served_def list_all_length)
  moreover from s1(1) s2(1) s3(1) have "leads args s s3"
    by (blast intro: leads_trans)
  ultimately show ?thesis
    using s3(2) by blast
qed

text \<open>
  The handles dequeued and the handles passed to the handler, counted: an entry of a
  history of the workers is an entry of the history of one worker.
\<close>

lemma count_by_thread:
  assumes "list_all (\<lambda>x. is_worker n (fst x)) xs"
  shows "count_list (map snd xs) c = (\<Sum>i<n. count_list (by_thread (Pool i) xs) c)"
  using assms
proof (induction xs)
  case Nil
  show ?case
    by (simp add: by_thread_def)
next
  case (Cons x xs)
  obtain t a where x: "x = (t, a)"
    by (cases x)
  with Cons.prems obtain j where j: "t = Pool j" "j < n"
    by (cases t) auto
  have "(\<Sum>i<n. count_list (by_thread (Pool i) (x # xs)) c)
      = (\<Sum>i<n. count_list (by_thread (Pool i) xs) c + (if i = j \<and> a = c then 1 else 0))"
    by (rule sum.cong) (auto simp: by_thread_def x j)
  also have "\<dots> = (\<Sum>i<n. count_list (by_thread (Pool i) xs) c) + (if a = c then 1 else 0)"
    using j(2) by (simp add: sum.distrib)
  finally show ?case
    using Cons x by simp
qed

lemma accounted_for:
  assumes "invariant args s"
  shows "count_list (enqueued s) c
    = count_list (map snd (dispatched s)) c
      + (\<Sum>i<length (workers s). count_list (pending (workers s ! i)) c)
      + count_list (pool_queue s) c"
proof -
  from assms have q: "enqueued s = map snd (dequeued s) @ pool_queue s"
    and d: "dispatch_inv s"
    by (simp_all add: invariant_def queue_inv_def)
  let ?n = "length (workers s)"
  from d have "count_list (map snd (dequeued s)) c
      = (\<Sum>i<?n. count_list (by_thread (Pool i) (dequeued s)) c)"
    by (intro count_by_thread) (simp add: dispatch_inv_def)
  also from d have "\<dots> = (\<Sum>i<?n. count_list (by_thread (Pool i) (dispatched s)) c
      + count_list (pending (workers s ! i)) c)"
    by (intro sum.cong) (simp_all add: dispatch_inv_def)
  also have "\<dots> = (\<Sum>i<?n. count_list (by_thread (Pool i) (dispatched s)) c)
      + (\<Sum>i<?n. count_list (pending (workers s ! i)) c)"
    by (simp add: sum.distrib)
  also from d have "(\<Sum>i<?n. count_list (by_thread (Pool i) (dispatched s)) c)
      = count_list (map snd (dispatched s)) c"
    by (intro count_by_thread [symmetric]) (simp add: dispatch_inv_def)
  finally show ?thesis
    using q by simp
qed

section \<open>A queued handle does not wait for ever\<close>

text \<open>With a handle in the queue, some thread that is not waiting for a connection can move.\<close>

lemma someone_moves:
  assumes inv: "invariant args s" and run: "\<not> terminated s"
    and queue: "pool_queue s \<noteq> []" and pool: "workers s \<noteq> []"
  shows "(\<exists>i e s'. step args s (Run (Pool i) e) = Some s')
    \<or> (\<exists>i s'. step args s (Handler_returns i []) = Some s')
    \<or> (main_holds (main s) \<and> (\<exists>e s'. step args s (Run Main e) = Some s'))"
proof -
  let ?e = "\<lparr>env_int = 0, env_ptr = None, env_wake = 0\<rparr>"
  from inv have m: "mutex_inv s" and p: "progress_inv s" and w: "pool_inv args s"
    by (simp_all add: invariant_def)
  show ?thesis
  proof (cases "mutex s")
    case None
    with m have "\<not> main_holds (main s)"
      by (simp add: mutex_inv_def)
    then have "\<not> signalling (main s)"
      by (cases "main s" rule: signalling.cases) auto
    with p queue pool have "list_ex (\<lambda>st. \<not> is_blocked st) (workers s)"
      by (simp add: progress_inv_def)
    then obtain j where j: "j < length (workers s)" "\<not> is_blocked (workers s ! j)"
      by (auto simp: list_ex_iff in_set_conv_nth)
    from m None j(1) have nh: "\<not> holds (workers s ! j)"
      by (simp add: mutex_inv_def)
    from w j(1) have wp: "well_placed (workers s ! j)"
      by (simp add: pool_inv_def list_all_length)
    show ?thesis
    proof (cases "workers s ! j")
      case (At pc)
      with nh j(1) run None have "\<exists>s'. step args s (Run (Pool j) ?e) = Some s'"
        by (cases pc) (simp_all add: step_def thread_step_def)
      then show ?thesis
        by blast
    next
      case (Woken pc)
      with wp j(1) run None have "\<exists>s'. step args s (Run (Pool j) ?e) = Some s'"
        by (simp add: step_def thread_step_def)
      then show ?thesis
        by blast
    next
      case (In_handler pc)
      with wp obtain c where "pc = L75 c"
        by (cases pc) simp_all
      with In_handler j(1) run have "\<exists>s'. step args s (Handler_returns j []) = Some s'"
        by (simp add: step_def handler_done_def)
      then show ?thesis
        by blast
    qed (use j(2) wp in simp_all)
  next
    case (Some t)
    show ?thesis
    proof (cases t)
      case Main
      with Some m have h: "main_holds (main s)"
        by (simp add: mutex_inv_def)
      obtain e :: env where e: "list_ex is_blocked (workers s) \<longrightarrow>
          env_wake e < length (workers s) \<and> is_blocked (workers s ! env_wake e)"
      proof (cases "list_ex is_blocked (workers s)")
        case True
        then obtain k where "k < length (workers s)" "is_blocked (workers s ! k)"
          by (rule blocked_worker)
        then show ?thesis
          by (intro that [of "\<lparr>env_int = 0, env_ptr = None, env_wake = k\<rparr>"]) simp
      next
        case False
        then show ?thesis
          by (intro that [of ?e]) simp
      qed
      from h have "\<exists>s'. step args s (Run Main e) = Some s'"
      proof (cases rule: main_holds.elims(2))
        case (1 server c)
        with run show ?thesis
          by (simp add: step_def thread_step_def)
      next
        case (2 server)
        with run e show ?thesis
          by (simp add: step_def thread_step_def)
      next
        case (3 server)
        with run show ?thesis
          by (simp add: step_def thread_step_def)
      qed
      with h show ?thesis
        by blast
    next
      case (Pool i)
      with Some m have i: "i < length (workers s)" "holds (workers s ! i)"
        by (simp_all add: mutex_inv_def)
      from i(2) have "\<exists>s'. step args s (Run (Pool i) ?e) = Some s'"
      proof (cases rule: holds.elims(2))
        case 1
        with i(1) run show ?thesis
          by (cases "pool_queue s") (simp_all add: step_def thread_step_def)
      next
        case 2
        with i(1) run show ?thesis
          by (simp add: step_def thread_step_def)
      next
        case 3
        with i(1) run show ?thesis
          by (cases "pool_queue s") (simp_all add: step_def thread_step_def)
      next
        case (4 d)
        with i(1) run show ?thesis
          by (simp add: step_def thread_step_def)
      qed
      then show ?thesis
        by blast
    qed
  qed
qed

text \<open>
  While a handle stays in the queue, every move of the pool that is not a dequeue brings
  a worker nearer to its next dequeue, and no move of another thread takes one further
  away.
\<close>

lemma rank_update:
  assumes "i < length ws"
  shows "sum_list (map rank (ws[i := st])) + rank (ws ! i) = sum_list (map rank ws) + rank st"
  using assms
proof (induction ws arbitrary: i)
  case Nil
  then show ?case
    by simp
next
  case (Cons w ws)
  then show ?case
    by (cases i) auto
qed

lemma rank_bound: "rank st \<le> 9"
  by (cases st rule: rank.cases) simp_all

lemma ranks_bound: "ranks s \<le> 9 * length (workers s)"
  unfolding ranks_def
proof (induction "workers s" arbitrary: s)
  case Nil
  then show ?case
    by simp
next
  case (Cons w ws)
  from Cons.hyps(1) [of "s\<lparr>workers := ws\<rparr>"] Cons.hyps(2) [symmetric] rank_bound [of w]
  show ?case
    by simp
qed

lemma worker_nearer:
  assumes i: "i < length (workers s)" and w: "workers s' = (workers s)[i := st]"
    and d: "dequeued s' = dequeued s @ zs"
    and r: "Suc (rank st) \<le> rank (workers s ! i) + 6 * length zs"
  shows "Suc (ranks s') + 6 * length (dequeued s) \<le> ranks s + 6 * length (dequeued s')"
  using rank_update [OF i, of st] r unfolding ranks_def w d by simp

lemma waiting_step:
  assumes inv: "invariant args s" and queue: "pool_queue s \<noteq> []"
    and st: "step args s ch = Some s'"
  shows "(if pool_move ch then 1 else 0) + ranks s' + 6 * length (dequeued s)
        \<le> ranks s + 6 * length (dequeued s')
    \<and> length (pool_queue s) + length (dequeued s) \<le> length (pool_queue s') + length (dequeued s')
    \<and> length (workers s') = length (workers s)"
proof -
  from inv have pool: "pool_inv args s" and p: "progress_inv s" and q: "queue_inv s"
    by (simp_all add: invariant_def)
  from q queue have nc: "\<not> in_create (main s)"
    by (auto simp: queue_inv_def)
  show ?thesis
  proof (cases ch)
    case (Run t e)
    show ?thesis
    proof (cases t)
      case Main
      with Run st have "step args s (Run Main e) = Some s'"
        by simp
      with pool show ?thesis
      proof (cases rule: main_step_cases)
        case (signal server k)
        from signal(3) obtain pc where pc: "workers s ! k = Blocked pc"
          by (cases "workers s ! k") simp_all
        from rank_update [OF signal(2), of "Woken pc"] pc signal(4) Run Main show ?thesis
          by (simp add: ranks_def)
      qed (use nc Run Main in \<open>simp_all add: ranks_def\<close>)
    next
      case (Pool i)
      with Run st have st': "step args s (Run (Pool i) e) = Some s'"
        by simp
      note i = step_bounds(2) [OF st' refl]
      from pool i have wp: "well_placed (workers s ! i)"
        by (simp add: pool_inv_def well_placed_nth)
      from st' have "Suc (ranks s') + 6 * length (dequeued s) \<le> ranks s + 6 * length (dequeued s')
        \<and> length (pool_queue s) + length (dequeued s)
            \<le> length (pool_queue s') + length (dequeued s')
        \<and> length (workers s') = length (workers s)"
      proof (cases rule: worker_step_cases)
        case lock
        with worker_nearer [OF i, of s' "At L68" "[]"] show ?thesis
          by simp
      next
        case dequeue1_empty
        with queue show ?thesis
          by simp
      next
        case (dequeue1 c q)
        with worker_nearer [OF i, of s' "At (L73 (Some c))" "[(Pool i, c)]"] show ?thesis
          by simp
      next
        case wait
        with p i queue show ?thesis
          by (simp add: progress_inv_def)
      next
        case (reacquire pc pc')
        with wp have "pc' = L71"
          by simp
        with reacquire worker_nearer [OF i, of s' "At L71" "[]"] show ?thesis
          by simp
      next
        case dequeue2_empty
        with queue show ?thesis
          by simp
      next
        case (dequeue2 c q)
        with worker_nearer [OF i, of s' "At (L73 (Some c))" "[(Pool i, c)]"] show ?thesis
          by simp
      next
        case (unlock d)
        with worker_nearer [OF i, of s' "At (case d of None \<Rightarrow> L67 | Some c \<Rightarrow> L75 c)" "[]"]
        show ?thesis
          by (cases d) simp_all
      next
        case (call c)
        with worker_nearer [OF i, of s' "In_handler (L75 c)" "[]"] show ?thesis
          by simp
      next
        case (free c)
        with worker_nearer [OF i, of s' "At L67" "[]"] show ?thesis
          by simp
      qed
      with Run Pool show ?thesis
        by simp
    qed
  next
    case (Spurious_wakeup i)
    with st have st': "step args s (Spurious_wakeup i) = Some s'"
      by simp
    note i = step_bounds(3) [OF st Spurious_wakeup]
    from st' show ?thesis
    proof (cases rule: wakeup_step_cases)
      case (wakeup pc)
      with rank_update [OF i, of "Woken pc"] Spurious_wakeup show ?thesis
        by (simp add: ranks_def)
    qed
  next
    case (Handler_returns i uses)
    with st have st': "step args s (Handler_returns i uses) = Some s'"
      by simp
    note i = step_bounds(4) [OF st Handler_returns]
    from st' show ?thesis
    proof (cases rule: handler_step_cases)
      case (returns c)
      with worker_nearer [OF i, of s' "At (L76 c)" "[]"] Handler_returns show ?thesis
        by simp
    qed
  next
    case (Handler_killed i uses data n)
    with st have "step args s (Handler_killed i uses data n) = Some s'"
      by simp
    then show ?thesis
      by (cases rule: killed_step_cases) (use Handler_killed in \<open>simp add: ranks_def\<close>)
  qed
qed


text \<open>The history of the dequeues grows at the end only.\<close>

lemma step_dequeued:
  assumes "pool_inv args s" and "step args s ch = Some s'"
  shows "\<exists>zs. dequeued s' = dequeued s @ zs"
proof (cases ch)
  case (Run t e)
  show ?thesis
  proof (cases t)
    case Main
    with Run assms(2) have "step args s (Run Main e) = Some s'"
      by simp
    with assms(1) show ?thesis
      by (cases rule: main_step_cases) simp_all
  next
    case (Pool i)
    with Run assms(2) have "step args s (Run (Pool i) e) = Some s'"
      by simp
    then show ?thesis
      by (cases rule: worker_step_cases) simp_all
  qed
next
  case (Spurious_wakeup i)
  with assms(2) have "step args s (Spurious_wakeup i) = Some s'"
    by simp
  then show ?thesis
    by (cases rule: wakeup_step_cases) simp_all
next
  case (Handler_returns i uses)
  with assms(2) have "step args s (Handler_returns i uses) = Some s'"
    by simp
  then show ?thesis
    by (cases rule: handler_step_cases) simp_all
next
  case (Handler_killed i uses data n)
  with assms(2) have "step args s (Handler_killed i uses data n) = Some s'"
    by simp
  then show ?thesis
    by (cases rule: killed_step_cases) simp_all
qed

lemma run_dequeued:
  assumes "invariant args s" and "run args s chs = Some s'"
  shows "\<exists>zs. dequeued s' = dequeued s @ zs"
  using assms
proof (induction chs arbitrary: s)
  case Nil
  then show ?case
    by simp
next
  case (Cons ch chs)
  from Cons.prems(2) obtain s1 where s1: "step args s ch = Some s1" "run args s1 chs = Some s'"
    by (auto split: option.splits)
  from Cons.prems(1) have "pool_inv args s"
    by (simp add: invariant_def)
  from step_dequeued [OF this s1(1)] obtain zs where "dequeued s1 = dequeued s @ zs"
    by blast
  moreover from Cons.prems(1) s1(1) have "invariant args s1"
    by (rule invariant_step)
  from Cons.IH [OF this s1(2)] obtain ys where "dequeued s' = dequeued s1 @ ys"
    by blast
  ultimately show ?case
    by simp
qed

text \<open>
  The moves of the pool along a run during which a handle stays in the queue, counted.
\<close>

lemma waiting_moves:
  assumes "invariant args s" and "run args s chs = Some s'"
    and "length (dequeued s') < length (dequeued s) + length (pool_queue s)"
  shows "length (filter pool_move chs) + ranks s' + 6 * length (dequeued s)
    \<le> ranks s + 6 * length (dequeued s')"
  using assms
proof (induction chs arbitrary: s)
  case Nil
  then show ?case
    by simp
next
  case (Cons ch chs)
  from Cons.prems(2) obtain s1 where s1: "step args s ch = Some s1" "run args s1 chs = Some s'"
    by (auto split: option.splits)
  from Cons.prems(1) s1(1) have inv1: "invariant args s1"
    by (rule invariant_step)
  from Cons.prems(1) have "pool_inv args s"
    by (simp add: invariant_def)
  from step_dequeued [OF this s1(1)] have "length (dequeued s) \<le> length (dequeued s1)"
    by auto
  moreover from run_dequeued [OF inv1 s1(2)] have "length (dequeued s1) \<le> length (dequeued s')"
    by auto
  ultimately have "pool_queue s \<noteq> []"
    using Cons.prems(3) by auto
  note w = waiting_step [OF Cons.prems(1) this s1(1)]
  with Cons.prems(3) have "length (dequeued s') < length (dequeued s1) + length (pool_queue s1)"
    by simp
  from Cons.IH [OF inv1 s1(2) this] w show ?case
    by (simp split: if_splits)
qed

lemma bounded_wait:
  assumes "invariant args s" and "run args s chs = Some s'"
    and "length (dequeued s') < length (dequeued s) + length (pool_queue s)"
  shows "length (filter pool_move chs)
    \<le> 9 * length (workers s) + 6 * (length (dequeued s') - length (dequeued s))"
proof -
  from run_dequeued [OF assms(1,2)] have "length (dequeued s) \<le> length (dequeued s')"
    by auto
  with waiting_moves [OF assms] ranks_bound [of s] show ?thesis
    by simp
qed

text \<open>The handles in the queue are dequeued in their order in the queue.\<close>

lemma dequeued_next:
  assumes "invariant args s" and "run args s chs = Some s'"
    and "k < length (pool_queue s)" and "length (dequeued s) + k < length (dequeued s')"
  shows "snd (dequeued s' ! (length (dequeued s) + k)) = pool_queue s ! k"
proof -
  from assms(1,2) have "invariant args s'"
    by (rule run_invariant)
  with assms(1) have q: "enqueued s = map snd (dequeued s) @ pool_queue s"
    "enqueued s' = map snd (dequeued s') @ pool_queue s'"
    by (simp_all add: invariant_def queue_inv_def)
  from run_enqueued [OF assms(1,2)] obtain zs where "enqueued s' = enqueued s @ zs"
    by blast
  with q have "map snd (dequeued s') @ pool_queue s'
      = map snd (dequeued s) @ pool_queue s @ zs"
    by simp
  then have "(map snd (dequeued s') @ pool_queue s') ! (length (dequeued s) + k)
      = (map snd (dequeued s) @ pool_queue s @ zs) ! (length (dequeued s) + k)"
    by simp
  with assms(3,4) show ?thesis
    by (simp add: nth_append)
qed

section \<open>Runs without end\<close>

lemma run_of_steps:
  assumes "\<forall>n. step args (\<sigma> n) (c n) = Some (\<sigma> (Suc n))"
  shows "run args (\<sigma> n) (map c [n..<n + l]) = Some (\<sigma> (n + l))"
proof (induction l)
  case 0
  show ?case
    by simp
next
  case (Suc l)
  with assms show ?case
    by (simp add: run_snoc)
qed

lemma many_pool_moves:
  assumes "\<forall>n. \<exists>m\<ge>n. pool_move (c m)"
  shows "\<exists>l. b \<le> length (filter pool_move (map c [n..<n + l]))"
proof (induction b)
  case 0
  show ?case
    by simp
next
  case (Suc b)
  then obtain l where l: "b \<le> length (filter pool_move (map c [n..<n + l]))"
    by blast
  from assms obtain m where m: "n + l \<le> m" "pool_move (c m)"
    by blast
  from m(1) obtain d where d: "m = n + l + d"
    by (auto simp: le_iff_add)
  have "[n..<n + (Suc m - n)] = [n..<m] @ [m]"
    using m(1) by simp
  also have "[n..<m] = [n..<n + l] @ [n + l..<m]"
    unfolding d by (rule upt_add_eq_append) simp
  finally have "[n..<n + (Suc m - n)] = [n..<n + l] @ [n + l..<m] @ [m]"
    by simp
  with l m(2) have "Suc b \<le> length (filter pool_move (map c [n..<n + (Suc m - n)]))"
    by simp
  then show ?case
    by blast
qed

text \<open>
  In a run without end in which the pool moves again and again, every handle in the
  queue is dequeued.
\<close>

lemma eventually_dequeued:
  assumes inv: "invariant args (\<sigma> 0)"
    and steps: "\<forall>n. step args (\<sigma> n) (c n) = Some (\<sigma> (Suc n))"
    and fair: "\<forall>n. \<exists>m\<ge>n. pool_move (c m)"
    and k: "k < length (pool_queue (\<sigma> 0))"
  shows "\<exists>m. length (dequeued (\<sigma> 0)) + k < length (dequeued (\<sigma> m))"
proof (rule ccontr)
  assume "\<not> ?thesis"
  then have never: "\<And>m. length (dequeued (\<sigma> m)) \<le> length (dequeued (\<sigma> 0)) + k"
    by (simp add: not_less)
  let ?b = "Suc (9 * length (workers (\<sigma> 0)) + 6 * k)"
  from many_pool_moves [OF fair, of ?b 0] obtain l
    where l: "?b \<le> length (filter pool_move (map c [0..<l]))"
    by auto
  from run_of_steps [OF steps, of 0 l] have r: "run args (\<sigma> 0) (map c [0..<l]) = Some (\<sigma> l)"
    by simp
  from never [of l] k
  have "length (dequeued (\<sigma> l)) < length (dequeued (\<sigma> 0)) + length (pool_queue (\<sigma> 0))"
    by simp
  from bounded_wait [OF inv r this] never [of l] l show False
    by simp
qed

text \<open>A worker at a program point stays there until it moves.\<close>

lemma stays_put_step:
  assumes pool: "pool_inv args s" and j: "j < length (workers s)" "workers s ! j = At pc"
    and st: "step args s ch = Some s'" and other: "\<not> moves_of j ch"
  shows "j < length (workers s') \<and> workers s' ! j = At pc"
proof (cases ch)
  case (Run t e)
  show ?thesis
  proof (cases t)
    case Main
    with Run st have "step args s (Run Main e) = Some s'"
      by simp
    with pool show ?thesis
    proof (cases rule: main_step_cases)
      case (signal server k)
      with j have "k \<noteq> j"
        by auto
      with signal j show ?thesis
        by simp
    qed (use j in \<open>simp_all add: nth_append\<close>)
  next
    case (Pool i)
    with Run st have st': "step args s (Run (Pool i) e) = Some s'"
      by simp
    from Pool Run other have "i \<noteq> j"
      by simp
    with st' j show ?thesis
      by (cases rule: worker_step_cases) simp_all
  qed
next
  case (Spurious_wakeup i)
  with st have "step args s (Spurious_wakeup i) = Some s'"
    by simp
  then show ?thesis
  proof (cases rule: wakeup_step_cases)
    case (wakeup pc')
    with j have "i \<noteq> j"
      by auto
    with wakeup j show ?thesis
      by simp
  qed
next
  case (Handler_returns i uses)
  with st have "step args s (Handler_returns i uses) = Some s'"
    by simp
  then show ?thesis
  proof (cases rule: handler_step_cases)
    case (returns c)
    with j have "i \<noteq> j"
      by auto
    with returns j show ?thesis
      by simp
  qed
next
  case (Handler_killed i uses data n)
  with st have "step args s (Handler_killed i uses data n) = Some s'"
    by simp
  then show ?thesis
    by (cases rule: killed_step_cases) (use j in simp)
qed

lemma stays_put:
  assumes "invariant args s" and "j < length (workers s)" and "workers s ! j = At pc"
    and "run args s chs = Some t" and "\<not> list_ex (moves_of j) chs"
  shows "j < length (workers t) \<and> workers t ! j = At pc"
  using assms
proof (induction chs arbitrary: s)
  case Nil
  then show ?case
    by simp
next
  case (Cons ch chs)
  from Cons.prems(4) obtain s1 where s1: "step args s ch = Some s1" "run args s1 chs = Some t"
    by (auto split: option.splits)
  from Cons.prems(1) have "pool_inv args s"
    by (simp add: invariant_def)
  from stays_put_step [OF this Cons.prems(2,3) s1(1)] Cons.prems(5)
  have "j < length (workers s1) \<and> workers s1 ! j = At pc"
    by simp
  moreover from Cons.prems(1) s1(1) have "invariant args s1"
    by (rule invariant_step)
  ultimately show ?case
    using Cons.IH [of s1] s1(2) Cons.prems(5) by simp
qed

text \<open>The example of a run without end.\<close>

lemma follow_run:
  assumes "run args (follow args s c n) chs = Some t" and "\<forall>r < length chs. c (n + r) = chs ! r"
  shows "follow args s c (n + length chs) = t
    \<and> (\<forall>r < length chs.
          step args (follow args s c (n + r)) (c (n + r)) = Some (follow args s c (Suc (n + r))))"
  using assms
proof (induction chs arbitrary: n)
  case Nil
  then show ?case
    by simp
next
  case (Cons ch chs)
  from Cons.prems(2) have c: "c n = ch"
    by auto
  from Cons.prems(1) obtain s1 where s1: "step args (follow args s c n) ch = Some s1"
    "run args s1 chs = Some t"
    by (auto split: option.splits)
  with c have f: "follow args s c (Suc n) = s1"
    by simp
  from Cons.prems(2) have "\<forall>r < length chs. c (Suc n + r) = chs ! r"
    by auto
  from Cons.IH [of "Suc n", unfolded f, OF s1(2) this]
  have IH: "follow args s c (Suc n + length chs) = t"
    "\<forall>r < length chs.
        step args (follow args s c (Suc n + r)) (c (Suc n + r))
          = Some (follow args s c (Suc (Suc n + r)))"
    by simp_all
  show ?case
  proof (intro conjI allI impI)
    from IH(1) show "follow args s c (n + length (ch # chs)) = t"
      by simp
  next
    fix r
    assume "r < length (ch # chs)"
    then show "step args (follow args s c (n + r)) (c (n + r))
        = Some (follow args s c (Suc (n + r)))"
    proof (cases r)
      case 0
      with s1(1) c f show ?thesis
        by simp
    next
      case (Suc r')
      with \<open>r < length (ch # chs)\<close> IH(2) show ?thesis
        by simp
    qed
  qed
qed


lemma idle_turn_run:
  assumes "workers s = [Blocked L70]" and "mutex s = None" and "\<not> terminated s"
    and "pool_queue s = []"
  shows "\<exists>t. run args s idle_turn = Some t \<and> workers t = [Blocked L70] \<and> mutex t = None
    \<and> \<not> terminated t \<and> pool_queue t = []"
  using assms by (simp add: idle_turn_def step_def thread_step_def)

lemma first_turn_run:
  "\<exists>t. run (example_args 1) dequeuing_state first_turn = Some t \<and> workers t = [Blocked L70]
    \<and> mutex t = None \<and> \<not> terminated t \<and> pool_queue t = []"
proof -
  let ?t = "the (run (example_args 1) dequeuing_state first_turn)"
  have "run (example_args 1) dequeuing_state first_turn \<noteq> None"
    unfolding dequeuing_state_def by code_simp
  then have "run (example_args 1) dequeuing_state first_turn = Some ?t"
    by (rule run_the)
  moreover have "workers ?t = [Blocked L70]" "mutex ?t = None" "\<not> terminated ?t"
    "pool_queue ?t = []"
    unfolding dequeuing_state_def by code_simp+
  ultimately show ?thesis
    by blast
qed

lemma patrol_turns:
  "workers (follow (example_args 1) dequeuing_state patrol (8 + 7 * q)) = [Blocked L70]
   \<and> mutex (follow (example_args 1) dequeuing_state patrol (8 + 7 * q)) = None
   \<and> \<not> terminated (follow (example_args 1) dequeuing_state patrol (8 + 7 * q))
   \<and> pool_queue (follow (example_args 1) dequeuing_state patrol (8 + 7 * q)) = []
   \<and> (\<forall>n < 8 + 7 * q.
         step (example_args 1) (follow (example_args 1) dequeuing_state patrol n) (patrol n)
           = Some (follow (example_args 1) dequeuing_state patrol (Suc n)))"
proof (induction q)
  case 0
  let ?f = "follow (example_args 1) dequeuing_state patrol"
  from first_turn_run obtain t where t: "run (example_args 1) (?f 0) first_turn = Some t"
    "workers t = [Blocked L70]" "mutex t = None" "\<not> terminated t" "pool_queue t = []"
    by auto
  have len: "length first_turn = 8"
    by (simp add: first_turn_def)
  have p: "\<forall>r < length first_turn. patrol (0 + r) = first_turn ! r"
    by (simp add: patrol_def first_turn_def)
  from follow_run [OF t(1) p] have "?f 8 = t"
    "\<forall>r < 8. step (example_args 1) (?f r) (patrol r) = Some (?f (Suc r))"
    unfolding len by (simp_all del: follow.simps)
  with t(2-5) show ?case
    by (simp del: follow.simps)
next
  case (Suc q)
  let ?f = "follow (example_args 1) dequeuing_state patrol"
  from Suc idle_turn_run [of "?f (8 + 7 * q)" "example_args 1"]
  obtain t where t: "run (example_args 1) (?f (8 + 7 * q)) idle_turn = Some t"
    "workers t = [Blocked L70]" "mutex t = None" "\<not> terminated t" "pool_queue t = []"
    by blast
  have len: "length idle_turn = 7"
    by (simp add: idle_turn_def)
  have p: "\<forall>r < length idle_turn. patrol (8 + 7 * q + r) = idle_turn ! r"
    by (simp add: patrol_def idle_turn_def)
  from follow_run [OF t(1) p]
  have f: "?f (8 + 7 * q + 7) = t"
    "\<forall>r < 7. step (example_args 1) (?f (8 + 7 * q + r)) (patrol (8 + 7 * q + r))
          = Some (?f (Suc (8 + 7 * q + r)))"
    unfolding len by (simp_all del: follow.simps)
  have "step (example_args 1) (?f n) (patrol n) = Some (?f (Suc n))" if "n < 8 + 7 * Suc q" for n
  proof (cases "n < 8 + 7 * q")
    case True
    with Suc show ?thesis
      by (simp del: follow.simps)
  next
    case False
    with that obtain r where "n = 8 + 7 * q + r" "r < 7"
      by (auto simp: not_less le_iff_add)
    with f(2) show ?thesis
      by (simp del: follow.simps)
  qed
  moreover have "8 + 7 * Suc q = 8 + 7 * q + 7"
    by simp
  ultimately show ?case
    using f(1) t(2-5) by (simp del: follow.simps)
qed

lemma patrol_steps:
  "step (example_args 1) (follow (example_args 1) dequeuing_state patrol n) (patrol n)
     = Some (follow (example_args 1) dequeuing_state patrol (Suc n))"
  using patrol_turns [of n] by (simp del: follow.simps)

lemma patrol_fair: "\<exists>m\<ge>n. pool_move (patrol m)"
proof (intro exI conjI)
  show "n \<le> 8 + 7 * n + 1"
    by simp
  show "pool_move (patrol (8 + 7 * n + 1))"
    by (simp add: patrol_def idle_turn_def no_env_def)
qed

section \<open>Facts about the I/O primitives\<close>

lemma positive_ssize_t_as_size_t:
  fixes r :: ssize_t
  assumes "0 < sint r"
  shows "uint r = sint r"
proof -
  have "sint r < 2 ^ (LENGTH(64) - 1)"
    by (rule sint_lt)
  then have "sint r < 2 ^ LENGTH(64)"
    by simp
  with assms have "take_bit LENGTH(64) (sint r) = sint r"
    by (simp add: take_bit_int_eq_self)
  then show ?thesis
    by (simp add: uint_sint)
qed

text \<open>
  Claim C6. \<open>stream_server_read\<close> with a null connection, a null buffer or
  \<open>max_data_size < 1\<close> returns 0 and makes no call. Otherwise it makes exactly one
  \<^verbatim>\<open>read\<close> call, on the connection's descriptor, with the caller's buffer and bound;
  it returns 0 when that call answers 0 (the peer closed the connection) or a negative
  value (an error), and otherwise the answer itself, the number of bytes received,
  whatever its relation to the bound: there is no second call.
\<close>

theorem stream_server_read_contract:
  "(connection = None \<or> data = None \<or> max_data_size < 1 \<longrightarrow>
      stream_server_read connection data max_data_size ret = (0, []))
   \<and> (connection = Some c \<and> data = Some d \<and> \<not> max_data_size < 1 \<longrightarrow>
        snd (stream_server_read connection data max_data_size ret)
          = [Sys_read (id_field c) d max_data_size]
        \<and> (sint ret \<le> 0 \<longrightarrow> fst (stream_server_read connection data max_data_size ret) = 0)
        \<and> (0 < sint ret \<longrightarrow>
              fst (stream_server_read connection data max_data_size ret) = ret
              \<and> uint (fst (stream_server_read connection data max_data_size ret)) = sint ret))"
proof (intro conjI impI)
  assume "connection = None \<or> data = None \<or> max_data_size < 1"
  then show "stream_server_read connection data max_data_size ret = (0, [])"
    by (auto simp: stream_server_read_def split: option.splits)
next
  assume ok: "connection = Some c \<and> data = Some d \<and> \<not> max_data_size < 1"
  then have size: "\<not> max_data_size < 1"
    by simp
  from ok size show "snd (stream_server_read connection data max_data_size ret)
      = [Sys_read (id_field c) d max_data_size]"
    by (simp add: stream_server_read_def Let_def)
  {
    assume "sint ret \<le> 0"
    with ok size show "fst (stream_server_read connection data max_data_size ret) = 0"
      by (simp add: stream_server_read_def Let_def)
  }
  {
    assume pos: "0 < sint ret"
    with ok size show eq: "fst (stream_server_read connection data max_data_size ret) = ret"
      by (simp add: stream_server_read_def Let_def)
    from pos show "uint (fst (stream_server_read connection data max_data_size ret)) = sint ret"
      by (simp add: eq positive_ssize_t_as_size_t)
  }
qed

theorem stream_server_read_contract_witness:
  "stream_server_read None (Some 4096) 256 12 = (0, [])
   \<and> stream_server_read (Some \<lparr>id_field = 5\<rparr>) (Some 4096) 0 12 = (0, [])
   \<and> stream_server_read (Some \<lparr>id_field = 5\<rparr>) (Some 4096) 256 12 = (12, [Sys_read 5 4096 256])
   \<and> stream_server_read (Some \<lparr>id_field = 5\<rparr>) (Some 4096) 256 0 = (0, [Sys_read 5 4096 256])
   \<and> stream_server_read (Some \<lparr>id_field = 5\<rparr>) (Some 4096) 256 (- 1) = (0, [Sys_read 5 4096 256])"
proof -
  have a: "stream_server_read None (Some 4096) 256 12 = (0, [])"
    using stream_server_read_contract [where connection = None and data = "Some 4096" and max_data_size = 256 and ret = 12] by simp
  have b: "stream_server_read (Some \<lparr>id_field = 5\<rparr>) (Some 4096) 0 12 = (0, [])"
    using stream_server_read_contract [where connection = "Some \<lparr>id_field = 5\<rparr>" and data = "Some 4096" and max_data_size = 0 and ret = 12] by simp
  have c: "stream_server_read (Some \<lparr>id_field = 5\<rparr>) (Some 4096) 256 12 = (12, [Sys_read 5 4096 256])"
    using stream_server_read_contract
      [where connection = "Some \<lparr>id_field = 5\<rparr>" and data = "Some 4096" and max_data_size = 256
         and c = "\<lparr>id_field = 5\<rparr>" and d = 4096 and ret = 12]
    by (simp add: prod_eq_iff)
  have d: "stream_server_read (Some \<lparr>id_field = 5\<rparr>) (Some 4096) 256 0 = (0, [Sys_read 5 4096 256])"
    using stream_server_read_contract
      [where connection = "Some \<lparr>id_field = 5\<rparr>" and data = "Some 4096" and max_data_size = 256
         and c = "\<lparr>id_field = 5\<rparr>" and d = 4096 and ret = 0]
    by (simp add: prod_eq_iff)
  have e: "stream_server_read (Some \<lparr>id_field = 5\<rparr>) (Some 4096) 256 (- 1) = (0, [Sys_read 5 4096 256])"
    using stream_server_read_contract
      [where connection = "Some \<lparr>id_field = 5\<rparr>" and data = "Some 4096" and max_data_size = 256
         and c = "\<lparr>id_field = 5\<rparr>" and d = 4096 and ret = "- 1"]
    by (simp add: prod_eq_iff)
  from a b c d e show ?thesis
    by simp
qed

text \<open>
  Claim C7, as the code has it. \<open>stream_server_write\<close> with a null connection, a null
  buffer or \<open>data_size < 1\<close> makes no call and comes back. Otherwise it makes exactly one
  \<^verbatim>\<open>write\<close> call, on the connection's descriptor, with the caller's buffer and size.
  When \<^verbatim>\<open>write\<close> returns, what the function does is the same for any two values
  returned, a complete transfer, a partial one or an error: the value is dropped, nothing
  is returned to the caller and no further call follows. When \<^verbatim>\<open>write\<close> raises
  \<^verbatim>\<open>SIGPIPE\<close> the function does not come back: the process ends, and so it does
  when the handler of a connection makes that call on a worker.
\<close>

theorem stream_server_write_contract:
  "(connection = None \<or> data = None \<or> data_size < 1 \<longrightarrow>
      stream_server_write connection data data_size answer = ([], Comes_back))
   \<and> (connection = Some c \<and> data = Some d \<and> \<not> data_size < 1 \<longrightarrow>
        fst (stream_server_write connection data data_size answer)
          = [Sys_write (id_field c) d data_size]
        \<and> snd (stream_server_write connection data data_size (Returns ret)) = Comes_back
        \<and> snd (stream_server_write connection data data_size Sigpipe) = Process_ends)
   \<and> stream_server_write connection data data_size (Returns ret)
        = stream_server_write connection data data_size (Returns ret')
   \<and> length (fst (stream_server_write connection data data_size answer)) \<le> 1
   \<and> (i < length (workers s) \<and> \<not> terminated s \<and> workers s ! i = In_handler (L75 h)
        \<and> connections s h = Some c \<and> data = Some d \<and> \<not> data_size < 1 \<longrightarrow>
        (\<exists>s'. step args s (Handler_killed i uses data data_size) = Some s' \<and> terminated s'))
   \<and> (step args s (Handler_killed i uses data data_size) = Some s' \<longrightarrow>
        terminated s' \<and> step args s' ch = None)"
proof (intro conjI impI)
  assume "connection = None \<or> data = None \<or> data_size < 1"
  then show "stream_server_write connection data data_size answer = ([], Comes_back)"
    by (auto simp: stream_server_write_def split: option.splits)
next
  assume ok: "connection = Some c \<and> data = Some d \<and> \<not> data_size < 1"
  then have size: "\<not> data_size < 1"
    by simp
  from ok size show "fst (stream_server_write connection data data_size answer)
      = [Sys_write (id_field c) d data_size]"
    by (simp add: stream_server_write_def)
  from ok size show "snd (stream_server_write connection data data_size (Returns ret))
      = Comes_back"
    by (simp add: stream_server_write_def)
  from ok size show "snd (stream_server_write connection data data_size Sigpipe) = Process_ends"
    by (simp add: stream_server_write_def)
next
  show "stream_server_write connection data data_size (Returns ret)
      = stream_server_write connection data data_size (Returns ret')"
    by (simp add: stream_server_write_def split: option.splits)
next
  show "length (fst (stream_server_write connection data data_size answer)) \<le> 1"
    by (simp add: stream_server_write_def split: option.splits)
next
  assume a: "i < length (workers s) \<and> \<not> terminated s \<and> workers s ! i = In_handler (L75 h)
    \<and> connections s h = Some c \<and> data = Some d \<and> \<not> data_size < 1"
  then have "\<not> data_size < 1"
    by simp
  with a show "\<exists>s'. step args s (Handler_killed i uses data data_size) = Some s'
      \<and> terminated s'"
    by (simp add: step_def handler_killed_def stream_server_write_def)
next
  assume "step args s (Handler_killed i uses data data_size) = Some s'"
  then show "terminated s'"
    by (cases rule: killed_step_cases) simp
  then show "step args s' ch = None"
    by (simp add: step_def)
qed

theorem stream_server_write_contract_witness:
  "stream_server_write None (Some 4096) 3 (Returns 3) = ([], Comes_back)
   \<and> stream_server_write (Some \<lparr>id_field = 5\<rparr>) None 3 Sigpipe = ([], Comes_back)
   \<and> stream_server_write (Some \<lparr>id_field = 5\<rparr>) (Some 4096) 0 (Returns 3) = ([], Comes_back)
   \<and> stream_server_write (Some \<lparr>id_field = 5\<rparr>) (Some 4096) 3 (Returns (- 1))
       = ([Sys_write 5 4096 3], Comes_back)
   \<and> (\<exists>s'. step (example_args 1) stalled_state (Handler_killed 0 [] (Some 4096) 3) = Some s'
          \<and> terminated s' \<and> step (example_args 1) s' (Run Main no_env) = None)"
proof -
  have a: "stream_server_write None (Some 4096) 3 (Returns 3) = ([], Comes_back)"
    using stream_server_write_contract [where connection = None and data = "Some 4096"
        and data_size = 3 and answer = "Returns 3"]
    by simp
  have b: "stream_server_write (Some \<lparr>id_field = 5\<rparr>) None 3 Sigpipe = ([], Comes_back)"
    using stream_server_write_contract [where connection = "Some \<lparr>id_field = 5\<rparr>"
        and data = None and data_size = 3 and answer = Sigpipe]
    by simp
  have c: "stream_server_write (Some \<lparr>id_field = 5\<rparr>) (Some 4096) 0 (Returns 3)
      = ([], Comes_back)"
    using stream_server_write_contract [where connection = "Some \<lparr>id_field = 5\<rparr>"
        and data = "Some 4096" and data_size = 0 and answer = "Returns 3"]
    by simp
  have d: "stream_server_write (Some \<lparr>id_field = 5\<rparr>) (Some 4096) 3 (Returns (- 1))
      = ([Sys_write 5 4096 3], Comes_back)"
    using stream_server_write_contract
      [where connection = "Some \<lparr>id_field = 5\<rparr>" and data = "Some 4096" and data_size = 3
         and c = "\<lparr>id_field = 5\<rparr>" and d = 4096 and answer = "Returns (- 1)" and ret = "- 1"]
    by (simp add: prod_eq_iff)
  have f: "workers stalled_state = [In_handler (L75 100)]" "\<not> terminated stalled_state"
    "connections stalled_state 100 = Some \<lparr>id_field = 4\<rparr>"
    unfolding stalled_state_def by code_simp+
  let ?k = "Handler_killed 0 [] (Some 4096) 3"
  let ?s' = "the (step (example_args 1) stalled_state ?k)"
  note t = stream_server_write_contract [where s = stalled_state and i = 0 and h = 100
      and c = "\<lparr>id_field = 4\<rparr>" and data = "Some 4096" and d = 4096 and data_size = 3
      and args = "example_args 1" and uses = "[]" and ch = "Run Main no_env"
      and connection = None and answer = Sigpipe and ret = 0 and ret' = 0 and s' = ?s']
  from t f have "\<exists>s'. step (example_args 1) stalled_state ?k = Some s' \<and> terminated s'"
    by simp
  then have k: "step (example_args 1) stalled_state ?k = Some ?s'"
    by auto
  with t have "terminated ?s' \<and> step (example_args 1) ?s' (Run Main no_env) = None"
    by blast
  with k have e: "\<exists>s'. step (example_args 1) stalled_state
      (Handler_killed 0 [] (Some 4096) 3) = Some s'
      \<and> terminated s' \<and> step (example_args 1) s' (Run Main no_env) = None"
    by blast
  from a b c d e show ?thesis
    by blast
qed

theorem write_to_a_closed_peer:
  "stream_server_write (Some \<lparr>id_field = 5\<rparr>) (Some 4096) 3 Sigpipe
     = ([Sys_write 5 4096 3], Process_ends)
   \<and> terminated (the (step (example_args 1) stalled_state (Handler_killed 0 [] (Some 4096) 3)))"
proof -
  have "stream_server_write (Some \<lparr>id_field = 5\<rparr>) (Some 4096) 3 Sigpipe
     = ([Sys_write 5 4096 3], Process_ends)"
    by code_simp
  moreover have "terminated
      (the (step (example_args 1) stalled_state (Handler_killed 0 [] (Some 4096) 3)))"
    unfolding stalled_state_def by code_simp
  ultimately show ?thesis
    by blast
qed

section \<open>The functions, one call at a time\<close>

text \<open>
  Claim C2. One turn of the loop of \<open>thread_pool_handler\<close>, from line 67 back to line
  67, makes these calls in this order, for any answers of the calls: the lock, a
  dequeue, then, only if the dequeue returned null, the wait and a second dequeue, then
  the unlock, and, only if the last dequeue returned a handle \<open>c\<close>, the handler with the
  server, \<open>c\<close> and the server's handler context, followed by \<^verbatim>\<open>free\<close> of \<open>c\<close>. In the
  process: the wait releases the mutex and blocks the worker; the woken worker goes on to
  the second dequeue only with the mutex, which it takes when it is free; and the worker
  does not move while the handler runs.
\<close>

theorem thread_pool_handler_body:
  "run_local (thread_pool_handler server) L67 [ra, Ptr_answer (Some c), rc, rd, re]
     = ([Pthread_mutex_lock, Dynamic_queue_dequeue, Pthread_mutex_unlock,
         Connection_handler server c (connection_handler_context server), Free c], Goes L67)
   \<and> run_local (thread_pool_handler server) L67
       [ra, Ptr_answer None, rc, Ptr_answer (Some c), re, rf, rg]
     = ([Pthread_mutex_lock, Dynamic_queue_dequeue, Pthread_cond_wait, Dynamic_queue_dequeue,
         Pthread_mutex_unlock, Connection_handler server c (connection_handler_context server),
         Free c], Goes L67)
   \<and> run_local (thread_pool_handler server) L67 [ra, Ptr_answer None, rc, Ptr_answer None, re]
     = ([Pthread_mutex_lock, Dynamic_queue_dequeue, Pthread_cond_wait, Dynamic_queue_dequeue,
         Pthread_mutex_unlock], Goes L67)
   \<and> (i < length (workers s) \<and> \<not> terminated s \<and> workers s ! i = At L70 \<longrightarrow>
        step args s (Run (Pool i) e)
          = Some ((owned (Pool i) s)\<lparr>mutex := None, workers := (workers s)[i := Blocked L70]\<rparr>))
   \<and> (i < length (workers s) \<and> \<not> terminated s \<and> workers s ! i = Woken L70 \<longrightarrow>
        step args s (Run (Pool i) e)
          = (if mutex s = None
             then Some (s\<lparr>mutex := Some (Pool i), workers := (workers s)[i := At L71]\<rparr>)
             else None))
   \<and> (i < length (workers s) \<and> workers s ! i = In_handler (L75 c) \<longrightarrow>
        step args s (Run (Pool i) e) = None)"
  by (simp add: step_def thread_step_def)

theorem thread_pool_handler_body_witness:
  "step (example_args 1) waiting_state (Run (Pool 0) no_env)
     = Some ((owned (Pool 0) waiting_state)
              \<lparr>mutex := None, workers := (workers waiting_state)[0 := Blocked L70]\<rparr>)
   \<and> step (example_args 1) woken_state (Run (Pool 0) no_env)
     = Some (woken_state\<lparr>mutex := Some (Pool 0), workers := (workers woken_state)[0 := At L71]\<rparr>)
   \<and> step (example_args 1) stalled_state (Run (Pool 0) no_env) = None"
proof -
  have w: "workers waiting_state = [At L70]" "\<not> terminated waiting_state"
    unfolding waiting_state_def by code_simp+
  have k: "workers woken_state = [Woken L70]" "\<not> terminated woken_state"
    "mutex woken_state = None"
    unfolding woken_state_def by code_simp+
  have h: "workers stalled_state = [In_handler (L75 100)]"
    unfolding stalled_state_def by code_simp
  from w thread_pool_handler_body
    [where s = waiting_state and i = 0 and args = "example_args 1" and e = no_env]
  have 1: "step (example_args 1) waiting_state (Run (Pool 0) no_env)
     = Some ((owned (Pool 0) waiting_state)
              \<lparr>mutex := None, workers := (workers waiting_state)[0 := Blocked L70]\<rparr>)"
    by simp
  from k thread_pool_handler_body
    [where s = woken_state and i = 0 and args = "example_args 1" and e = no_env]
  have 2: "step (example_args 1) woken_state (Run (Pool 0) no_env)
     = Some (woken_state\<lparr>mutex := Some (Pool 0), workers := (workers woken_state)[0 := At L71]\<rparr>)"
    by simp
  from h thread_pool_handler_body
    [where s = stalled_state and i = 0 and c = 100 and args = "example_args 1" and e = no_env]
  have 3: "step (example_args 1) stalled_state (Run (Pool 0) no_env) = None"
    by simp
  from 1 2 3 show ?thesis
    by simp
qed


text \<open>
  One call of \<open>stream_server_loop\<close> with a server, when \<^verbatim>\<open>accept\<close> returns a
  descriptor (not negative) and the allocation of the handle succeeds, makes exactly
  these calls, in this order: one \<^verbatim>\<open>accept\<close> on the listening socket, the allocation
  of one connection structure, the store of the descriptor into it, the lock, the enqueue
  of that structure, one signal, the unlock; then it returns. Whatever the answers,
  a call of the function makes at most one \<^verbatim>\<open>accept\<close> and at most nine calls in all
  (the entry test and the return counted): there is no loop in it. The signal wakes one
  blocked worker when there is one.
\<close>

lemma stream_server_loop_calls:
  "(0 \<le> sint connection_fd \<longrightarrow>
      run_local stream_server_loop (L147 (Some server))
        [ra, Int_answer connection_fd, Ptr_answer (Some c), rd, re, rf, rg, rh, ri]
      = ([Local, Accept (socket_fd server), Calloc Connection_struct, Store_id c connection_fd,
          Pthread_mutex_lock, Dynamic_queue_enqueue c, Pthread_cond_signal,
          Pthread_mutex_unlock, Return], Ends))
   \<and> length (filter is_accept (fst (run_local stream_server_loop (L147 server') as))) \<le> 1
   \<and> length (fst (run_local stream_server_loop (L147 server') as)) \<le> 9
   \<and> (main s = At (In_loop server' L156) \<and> \<not> terminated s \<and> k < length (workers s)
        \<and> workers s ! k = Blocked pc \<longrightarrow>
        step args s (Run Main (wakes k))
          = Some (s\<lparr>workers := (workers s)[k := Woken pc], main := At (In_loop server' L157)\<rparr>))
   \<and> (main s = At (In_loop server' L156) \<and> \<not> terminated s
        \<and> \<not> list_ex is_blocked (workers s) \<longrightarrow>
        step args s (Run Main e) = Some (s\<lparr>main := At (In_loop server' L157)\<rparr>))"
proof (intro conjI impI)
  assume "0 \<le> sint connection_fd"
  then show "run_local stream_server_loop (L147 (Some server))
        [ra, Int_answer connection_fd, Ptr_answer (Some c), rd, re, rf, rg, rh, ri]
      = ([Local, Accept (socket_fd server), Calloc Connection_struct, Store_id c connection_fd,
          Pthread_mutex_lock, Dynamic_queue_enqueue c, Pthread_cond_signal,
          Pthread_mutex_unlock, Return], Ends)"
    by (simp add: CHECK_IF_INVALID_def)
next
  from accepts_left_bound [of "L147 server'" as]
  show "length (filter is_accept (fst (run_local stream_server_loop (L147 server') as))) \<le> 1"
    by simp
next
  from calls_left_bound [of "L147 server'" as]
  show "length (fst (run_local stream_server_loop (L147 server') as)) \<le> 9"
    by simp
next
  assume a: "main s = At (In_loop server' L156) \<and> \<not> terminated s \<and> k < length (workers s)
    \<and> workers s ! k = Blocked pc"
  then have "Blocked pc \<in> set (workers s)"
    by (metis nth_mem)
  then have "list_ex is_blocked (workers s)"
    by (auto simp: list_ex_iff intro!: bexI [of _ "Blocked pc"])
  with a show "step args s (Run Main (wakes k))
      = Some (s\<lparr>workers := (workers s)[k := Woken pc], main := At (In_loop server' L157)\<rparr>)"
    by (simp add: step_main thread_step_At wakes_def)
next
  assume "main s = At (In_loop server' L156) \<and> \<not> terminated s
    \<and> \<not> list_ex is_blocked (workers s)"
  then show "step args s (Run Main e) = Some (s\<lparr>main := At (In_loop server' L157)\<rparr>)"
    by (simp add: step_main thread_step_At)
qed

text \<open>
  Claim C3. The source does not test the pointer that \<^verbatim>\<open>calloc\<close> returns at line 152,
  as \<open>stream_server_create\<close> does at line 87. With a server, \<^verbatim>\<open>accept\<close> returning
  the descriptor 4 and \<^verbatim>\<open>calloc\<close> returning a null pointer, the call makes the
  \<^verbatim>\<open>accept\<close> and the allocation, and then stores the descriptor through the null
  pointer at line 153: it builds no handle, takes no lock, enqueues and signals nothing and
  does not return. In the process, after a complete \<open>stream_server_create\<close> with one
  worker, these steps end the process with nothing enqueued and the accepted descriptor
  open.
\<close>

theorem stream_server_loop_null_connection:
  "run_local stream_server_loop (L147 (Some server)) [ra, Int_answer 4, Ptr_answer None, rd]
     = ([Local, Accept (socket_fd server), Calloc Connection_struct, Null_dereference], Ends)
   \<and> run (example_args 1) init null_handle_schedule = Some null_handle_state
   \<and> terminated null_handle_state
   \<and> main null_handle_state = Finished
   \<and> enqueued null_handle_state = []
   \<and> pool_queue null_handle_state = []
   \<and> workers null_handle_state = [At L67]
   \<and> 4 \<in> open_fds null_handle_state"
proof -
  have "run_local stream_server_loop (L147 (Some server))
      [ra, Int_answer 4, Ptr_answer None, rd]
     = ([Local, Accept (socket_fd server), Calloc Connection_struct, Null_dereference], Ends)"
    by (simp add: CHECK_IF_INVALID_def)
  moreover have "run (example_args 1) init null_handle_schedule = Some null_handle_state"
    unfolding null_handle_state_def by (rule run_the) code_simp
  moreover have "terminated null_handle_state"
    unfolding null_handle_state_def by code_simp
  moreover have "main null_handle_state = Finished"
    unfolding null_handle_state_def by code_simp
  moreover have "enqueued null_handle_state = []"
    unfolding null_handle_state_def by code_simp
  moreover have "pool_queue null_handle_state = []"
    unfolding null_handle_state_def by code_simp
  moreover have "workers null_handle_state = [At L67]"
    unfolding null_handle_state_def by code_simp
  moreover have "4 \<in> open_fds null_handle_state"
    unfolding null_handle_state_def by code_simp
  ultimately show ?thesis
    by blast
qed

text \<open>
  Claim C10. \<open>stream_server_loop\<close> called with a null server makes no call at all: the
  entry test is followed by the return. In the process, from the caller that holds a null
  server, the call, the test and the return lead back to the very same state: nothing was
  accepted, allocated, enqueued or signalled, and the process has not ended.
\<close>

theorem stream_server_loop_null_server:
  "run_local stream_server_loop (L147 None) (ra # rb # as) = ([Local, Return], Ends)
   \<and> (main s = At (In_caller None) \<and> \<not> terminated s \<longrightarrow>
        run args s [Run Main ea, Run Main eb, Run Main ec] = Some s)"
proof (intro conjI impI)
  show "run_local stream_server_loop (L147 None) (ra # rb # as) = ([Local, Return], Ends)"
    by simp
next
  assume a: "main s = At (In_caller None) \<and> \<not> terminated s"
  then have "s\<lparr>main := At (In_caller None)\<rparr> = s"
    by (metis sys.surjective sys.update_convs(4))
  with a show "run args s [Run Main ea, Run Main eb, Run Main ec] = Some s"
    by (simp add: step_main thread_step_At)
qed

theorem stream_server_loop_null_server_witness:
  "run (example_args 1) no_server_state [Run Main no_env, Run Main no_env, Run Main no_env]
     = Some no_server_state"
proof -
  have "main no_server_state = At (In_caller None)" "\<not> terminated no_server_state"
    unfolding no_server_state_def by code_simp+
  with stream_server_loop_null_server [where s = no_server_state] show ?thesis
    by simp
qed


text \<open>
  Claim C5. In \<open>stream_server_create\<close>, a negative return of \<^verbatim>\<open>socket\<close>,
  \<^verbatim>\<open>setsockopt\<close>, \<^verbatim>\<open>bind\<close> or \<^verbatim>\<open>listen\<close>, and in \<open>stream_server_loop\<close> a
  negative return of \<^verbatim>\<open>accept\<close>, is followed by the log message and \<^verbatim>\<open>exit(-1)\<close>
  and by nothing else: no other call is made and the function does not return. \<^verbatim>\<open>exit\<close>
  ends the process, and in a process that has ended no thread makes a step. When the
  two allocations of \<open>stream_server_create\<close> succeed and none of the four calls
  returns a negative value, the function makes its calls in order and returns a server,
  not a null pointer, whose \<^verbatim>\<open>socket_fd\<close> is the descriptor of \<^verbatim>\<open>socket\<close>.
\<close>

theorem failures_are_fatal:
  "(sint fd < 0 \<longrightarrow>
      run_local (stream_server_create args) C100 [Int_answer fd, ra, rb]
      = ([Socket, E ''Could not create a new socket'', Exit (- 1)], Ends))
   \<and> (0 \<le> sint fd \<and> sint status < 0 \<longrightarrow>
      run_local (stream_server_create args) C100 [Int_answer fd, Int_answer status, ra, rb]
      = ([Socket, Setsockopt fd, E ''Could not set socket options'', Exit (- 1)], Ends))
   \<and> (0 \<le> sint fd \<and> 0 \<le> sint sa \<and> sint status < 0 \<longrightarrow>
      run_local (stream_server_create args) C100
        [Int_answer fd, Int_answer sa, Int_answer status, ra, rb]
      = ([Socket, Setsockopt fd, Bind fd (port args), E ''Could not bind to port'', Exit (- 1)],
         Ends))
   \<and> (0 \<le> sint fd \<and> 0 \<le> sint sa \<and> 0 \<le> sint sb \<and> sint status < 0 \<longrightarrow>
      run_local (stream_server_create args) C100
        [Int_answer fd, Int_answer sa, Int_answer sb, Int_answer status, ra, rb]
      = ([Socket, Setsockopt fd, Bind fd (port args),
          Listen fd (max_waiting_connections args), E ''Could not listen'', Exit (- 1)], Ends))
   \<and> (sint fd < 0 \<longrightarrow>
      run_local stream_server_loop (L150 server) [Int_answer fd, ra, rb]
      = ([Accept (socket_fd server), E ''Could not accept a connection'', Exit (- 1)], Ends))
   \<and> perform t (Exit code) e s = Some (Exits, s\<lparr>terminated := True\<rparr>)
   \<and> (terminated s \<longrightarrow> step args s ch = None)
   \<and> (0 \<le> sint fd \<and> 0 \<le> sint sa \<and> 0 \<le> sint sb \<and> 0 \<le> sint sc \<longrightarrow>
      run_local (stream_server_create args) C86
        ([Ptr_answer (Some p), No_answer, No_answer, No_answer, Ptr_answer (Some a)]
         @ replicate (2 * unat (thread_pool_size args) + 1) No_answer
         @ [Int_answer fd, Int_answer sa, Int_answer sb, Int_answer sc])
      = ([Calloc Server_struct, Dynamic_queue_create, Pthread_mutex_init, Pthread_cond_init,
          Calloc (Thread_array (thread_pool_size args))]
         @ spawn_calls 0 (unat (thread_pool_size args)) @ [Local]
         @ [Socket, Setsockopt fd, Bind fd (port args),
            Listen fd (max_waiting_connections args)],
         Goes (C117 fd))
      \<and> stream_server_create args (C117 fd) = (Return, Stop)
      \<and> create_result args (C117 fd) = Some ((server_fields args)\<lparr>socket_fd := fd\<rparr>))"
proof -
  have "0 \<le> sint fd \<Longrightarrow> 0 \<le> sint sa \<Longrightarrow> 0 \<le> sint sb \<Longrightarrow> 0 \<le> sint sc \<Longrightarrow>
      run_local (stream_server_create args) C86
        ([Ptr_answer (Some p), No_answer, No_answer, No_answer, Ptr_answer (Some a)]
         @ replicate (2 * unat (thread_pool_size args) + 1) No_answer
         @ [Int_answer fd, Int_answer sa, Int_answer sb, Int_answer sc])
      = ([Calloc Server_struct, Dynamic_queue_create, Pthread_mutex_init, Pthread_cond_init,
          Calloc (Thread_array (thread_pool_size args))]
         @ spawn_calls 0 (unat (thread_pool_size args)) @ [Local]
         @ [Socket, Setsockopt fd, Bind fd (port args),
            Listen fd (max_waiting_connections args)],
         Goes (C117 fd))"
    by (rule create_run)
  moreover have "terminated s \<Longrightarrow> step args s ch = None"
    by (simp add: step_def)
  ultimately show ?thesis
    by (simp add: CHECK_IF_INVALID_def del: replicate.simps)
qed

theorem failures_are_fatal_witness:
  "run_local (stream_server_create (example_args 2)) C100 [Int_answer (- 1), No_answer, No_answer]
     = ([Socket, E ''Could not create a new socket'', Exit (- 1)], Ends)
   \<and> run_local (stream_server_create (example_args 2)) C100
       [Int_answer 3, Int_answer (- 1), No_answer, No_answer]
     = ([Socket, Setsockopt 3, E ''Could not set socket options'', Exit (- 1)], Ends)
   \<and> run_local (stream_server_create (example_args 2)) C100
       [Int_answer 3, Int_answer 0, Int_answer (- 1), No_answer, No_answer]
     = ([Socket, Setsockopt 3, Bind 3 8080, E ''Could not bind to port'', Exit (- 1)], Ends)
   \<and> run_local (stream_server_create (example_args 2)) C100
       [Int_answer 3, Int_answer 0, Int_answer 0, Int_answer (- 1), No_answer, No_answer]
     = ([Socket, Setsockopt 3, Bind 3 8080, Listen 3 16, E ''Could not listen'', Exit (- 1)],
        Ends)
   \<and> run_local stream_server_loop
       (L150 \<lparr>connection_handler = 1, connection_handler_context = 2, socket_fd = 3\<rparr>)
       [Int_answer (- 1), No_answer, No_answer]
     = ([Accept 3, E ''Could not accept a connection'', Exit (- 1)], Ends)
   \<and> step (example_args 2) (init\<lparr>terminated := True\<rparr>) (Run (Pool 0) no_env) = None
   \<and> create_result (example_args 2) (C117 3)
     = Some \<lparr>connection_handler = 1, connection_handler_context = 2, socket_fd = 3\<rparr>"
proof -
  note t = failures_are_fatal [where args = "example_args 2" and ra = No_answer
      and rb = No_answer]
  have 1: "run_local (stream_server_create (example_args 2)) C100
      [Int_answer (- 1), No_answer, No_answer]
     = ([Socket, E ''Could not create a new socket'', Exit (- 1)], Ends)"
    using t [where fd = "- 1"] by simp
  have 2: "run_local (stream_server_create (example_args 2)) C100
       [Int_answer 3, Int_answer (- 1), No_answer, No_answer]
     = ([Socket, Setsockopt 3, E ''Could not set socket options'', Exit (- 1)], Ends)"
    using t [where fd = 3 and status = "- 1"] by simp
  have 3: "run_local (stream_server_create (example_args 2)) C100
       [Int_answer 3, Int_answer 0, Int_answer (- 1), No_answer, No_answer]
     = ([Socket, Setsockopt 3, Bind 3 8080, E ''Could not bind to port'', Exit (- 1)], Ends)"
    using t [where fd = 3 and sa = 0 and status = "- 1"] by (simp add: example_args_def)
  have 4: "run_local (stream_server_create (example_args 2)) C100
       [Int_answer 3, Int_answer 0, Int_answer 0, Int_answer (- 1), No_answer, No_answer]
     = ([Socket, Setsockopt 3, Bind 3 8080, Listen 3 16, E ''Could not listen'', Exit (- 1)],
        Ends)"
    using t [where fd = 3 and sa = 0 and sb = 0 and status = "- 1"]
    by (simp add: example_args_def)
  have 5: "run_local stream_server_loop
       (L150 \<lparr>connection_handler = 1, connection_handler_context = 2, socket_fd = 3\<rparr>)
       [Int_answer (- 1), No_answer, No_answer]
     = ([Accept 3, E ''Could not accept a connection'', Exit (- 1)], Ends)"
    using t [where fd = "- 1"
        and server = "\<lparr>connection_handler = 1, connection_handler_context = 2, socket_fd = 3\<rparr>"]
    by simp
  have 6: "step (example_args 2) (init\<lparr>terminated := True\<rparr>) (Run (Pool 0) no_env) = None"
    using t [where s = "init\<lparr>terminated := True\<rparr>" and ch = "Run (Pool 0) no_env"] by simp
  have 7: "create_result (example_args 2) (C117 3)
     = Some \<lparr>connection_handler = 1, connection_handler_context = 2, socket_fd = 3\<rparr>"
    using t [where fd = 3 and sa = 0 and sb = 0 and sc = 0]
    by (simp add: example_args_def server_fields_def)
  from 1 2 3 4 5 6 7 show ?thesis
    by simp
qed

section \<open>The size of the pool\<close>

lemma step_workers_length:
  assumes "pool_inv args s" and "step args s ch = Some s'"
  shows "length (workers s') = length (workers s)
    \<or> in_create (main s) \<and> length (workers s') = Suc (length (workers s))"
proof (cases ch)
  case (Run t e)
  show ?thesis
  proof (cases t)
    case Main
    with Run assms(2) have "step args s (Run Main e) = Some s'"
      by simp
    with assms(1) show ?thesis
      by (cases rule: main_step_cases) simp_all
  next
    case (Pool i)
    with Run assms(2) have "step args s (Run (Pool i) e) = Some s'"
      by simp
    then show ?thesis
      by (cases rule: worker_step_cases) simp_all
  qed
next
  case (Spurious_wakeup i)
  with assms(2) have "step args s (Spurious_wakeup i) = Some s'"
    by simp
  then show ?thesis
    by (cases rule: wakeup_step_cases) simp_all
next
  case (Handler_returns i uses)
  with assms(2) have "step args s (Handler_returns i uses) = Some s'"
    by simp
  then show ?thesis
    by (cases rule: handler_step_cases) simp_all
next
  case (Handler_killed i uses data n)
  with assms(2) have "step args s (Handler_killed i uses data n) = Some s'"
    by simp
  then show ?thesis
    by (cases rule: killed_step_cases) simp_all
qed

lemma initialised_pool:
  "initialised st \<Longrightarrow> pool_at args st k \<Longrightarrow> k = unat (thread_pool_size args)"
  by (cases "(args, st, k)" rule: pool_at.cases) auto

lemma booted_run: "run (example_args 2) init (boot 2) = Some booted_state"
  unfolding booted_state_def by (rule run_the) code_simp

text \<open>
  Claim C9, as the code has it. In every state of the process: there are at most
  \<open>thread_pool_size\<close> workers, one for each call of \<^verbatim>\<open>pthread_create\<close> that returned
  0 (the source discards the value); at the test of the loop of line 96 the number of calls
  made is the loop counter, and once \<open>stream_server_create\<close> has returned a server it is
  \<open>thread_pool_size\<close>: so there are exactly \<open>thread_pool_size\<close> workers when every
  call returned 0. No worker has finished, and a step of the process never removes a
  worker, and adds one only while the main thread is in \<open>stream_server_create\<close>.
\<close>

theorem pool_size_is_fixed:
  assumes "reachable args s"
  shows "length (workers s) \<le> unat (thread_pool_size args)
    \<and> length (workers s) = length (filter (\<lambda>r. r = 0) (spawned s))
    \<and> (main s = At (In_create (C96 p i)) \<longrightarrow> length (spawned s) = unat i)
    \<and> (initialised (main s) \<longrightarrow> length (spawned s) = unat (thread_pool_size args))
    \<and> (initialised (main s) \<and> list_all (\<lambda>r. r = 0) (spawned s) \<longrightarrow>
          length (workers s) = unat (thread_pool_size args))
    \<and> Finished \<notin> set (workers s)
    \<and> (step args s ch = Some s' \<longrightarrow>
         length (workers s) \<le> length (workers s')
         \<and> (\<not> in_create (main s) \<longrightarrow> length (workers s') = length (workers s)))"
proof -
  from assms have "invariant args s"
    by (rule reachable_invariant)
  then have pool: "pool_inv args s"
    by (simp add: invariant_def)
  then have 1: "length (workers s) \<le> unat (thread_pool_size args)"
    and at: "pool_at args (main s) (length (spawned s))"
    and 2: "length (workers s) = length (filter (\<lambda>r. r = 0) (spawned s))"
    and placed: "list_all well_placed (workers s)"
    by (simp_all add: pool_inv_def)
  from at have 3: "main s = At (In_create (C96 p i)) \<longrightarrow> length (spawned s) = unat i"
    by auto
  from at have 4: "initialised (main s) \<longrightarrow> length (spawned s) = unat (thread_pool_size args)"
    by (auto dest: initialised_pool)
  have 5: "initialised (main s) \<and> list_all (\<lambda>r. r = 0) (spawned s) \<longrightarrow>
      length (workers s) = unat (thread_pool_size args)"
  proof
    assume a: "initialised (main s) \<and> list_all (\<lambda>r. r = 0) (spawned s)"
    then have "filter (\<lambda>r. r = 0) (spawned s) = spawned s"
      by (simp add: list_all_iff)
    with 2 4 a show "length (workers s) = unat (thread_pool_size args)"
      by simp
  qed
  from placed have 6: "Finished \<notin> set (workers s)"
    by (auto simp: list_all_iff)
  have 7: "step args s ch = Some s' \<longrightarrow>
         length (workers s) \<le> length (workers s')
         \<and> (\<not> in_create (main s) \<longrightarrow> length (workers s') = length (workers s))"
    using step_workers_length [OF pool, of ch s'] by auto
  from 1 2 3 4 5 6 7 show ?thesis
    by blast
qed

theorem pool_size_is_fixed_witness:
  "length (workers booted_state) = 2
   \<and> spawned booted_state = [0, 0]
   \<and> Finished \<notin> set (workers booted_state)
   \<and> length (workers (the (step (example_args 2) booted_state (Run (Pool 0) no_env)))) = 2
   \<and> main spawning_state = At (In_create (C96 (Some 2) 1))
   \<and> length (spawned spawning_state) = 1
   \<and> length (workers spawning_state) = length (filter (\<lambda>r. r = 0) (spawned spawning_state))"
proof -
  have r: "reachable (example_args 2) booted_state"
    using booted_run by (rule run_reachable)
  have m: "initialised (main booted_state)" "\<not> in_create (main booted_state)"
    "spawned booted_state = [0, 0]"
    unfolding booted_state_def by code_simp+
  have "step (example_args 2) booted_state (Run (Pool 0) no_env) \<noteq> None"
    unfolding booted_state_def by code_simp
  then have s: "step (example_args 2) booted_state (Run (Pool 0) no_env)
      = Some (the (step (example_args 2) booted_state (Run (Pool 0) no_env)))"
    by simp
  have u: "unat (thread_pool_size (example_args 2)) = 2"
    by (simp add: example_args_def)
  from pool_size_is_fixed [OF r, where ch = "Run (Pool 0) no_env"
      and s' = "the (step (example_args 2) booted_state (Run (Pool 0) no_env))"] m s u
  have 1: "length (workers booted_state) = 2 \<and> Finished \<notin> set (workers booted_state)
      \<and> length (workers (the (step (example_args 2) booted_state (Run (Pool 0) no_env)))) = 2"
    by simp
  have "run (example_args 2) init (take 7 (boot 2)) = Some spawning_state"
    unfolding spawning_state_def by (rule run_the) code_simp
  then have q: "reachable (example_args 2) spawning_state"
    by (rule run_reachable)
  have c: "main spawning_state = At (In_create (C96 (Some 2) 1))"
    unfolding spawning_state_def by code_simp
  from pool_size_is_fixed [OF q, where p = "Some 2" and i = 1] c
  have 2: "length (spawned spawning_state) = 1
      \<and> length (workers spawning_state)
          = length (filter (\<lambda>r. r = 0) (spawned spawning_state))"
    by simp
  from 1 2 c m(3) show ?thesis
    by simp
qed

theorem pool_short_of_a_worker:
  "run (example_args 2) init short_schedule = Some short_state
   \<and> initialised (main short_state)
   \<and> unat (thread_pool_size (example_args 2)) = 2
   \<and> spawned short_state = [0, 11]
   \<and> workers short_state = [At L67]
   \<and> \<not> terminated short_state"
proof -
  have "run (example_args 2) init short_schedule = Some short_state"
    unfolding short_state_def by (rule run_the) code_simp
  moreover have "initialised (main short_state)"
    unfolding short_state_def by code_simp
  moreover have "unat (thread_pool_size (example_args 2)) = 2"
    by (simp add: example_args_def)
  moreover have "spawned short_state = [0, 11]"
    unfolding short_state_def by code_simp
  moreover have "workers short_state = [At L67]"
    unfolding short_state_def by code_simp
  moreover have "\<not> terminated short_state"
    unfolding short_state_def by code_simp
  ultimately show ?thesis
    by blast
qed

section \<open>The connection after the handler\<close>

lemma handler_io_Cons:
  "handler_io connection (u # uses) = api_io connection u @ handler_io connection uses"
  by (simp add: handler_io_def)

lemma handler_io_effect:
  "foldl io_effect fds (handler_io (Some connection) uses)
     = (if Api_close \<in> set uses then fds - {id_field connection} else fds)"
proof (induction uses arbitrary: fds)
  case Nil
  show ?case
    by (simp add: handler_io_def)
next
  case (Cons u uses)
  show ?case
  proof (cases u)
    case (Api_read data n ret)
    then have "foldl io_effect fds (api_io (Some connection) u) = fds"
      by (simp add: stream_server_read_def Let_def split: option.splits)
    with Cons.IH [of fds] Api_read show ?thesis
      by (simp add: handler_io_Cons)
  next
    case (Api_write data n ret)
    then have "foldl io_effect fds (api_io (Some connection) u) = fds"
      by (simp add: stream_server_write_def split: option.splits)
    with Cons.IH [of fds] Api_write show ?thesis
      by (simp add: handler_io_Cons)
  next
    case Api_close
    then have "foldl io_effect fds (api_io (Some connection) u) = fds - {id_field connection}"
      by (simp add: stream_server_close_def)
    with Cons.IH [of "fds - {id_field connection}"] Api_close show ?thesis
      by (simp add: handler_io_Cons)
  qed
qed

lemma stalled_run: "run (example_args 1) init stalled_schedule = Some stalled_state"
  unfolding stalled_state_def by (rule run_the) code_simp

text \<open>
  Claim C8. In \<open>thread_pool_handler\<close> the call of the handler is followed by
  \<^verbatim>\<open>free\<close> of the connection structure and by nothing else before the next turn of the
  loop. The step of \<^verbatim>\<open>free\<close> removes the structure from the live structures and leaves the
  open descriptors as they are. So, from a worker inside the handler of a live structure,
  the return of the handler and the \<^verbatim>\<open>free\<close> lead to a state in which the structure is
  gone, and in which the open descriptors are those of before when the handler did not call
  \<open>stream_server_close\<close> (the descriptor of the connection is still open if it was), and
  those of before without the descriptor of the connection when it did.
\<close>

theorem free_leaves_the_socket_open:
  "run_local (thread_pool_handler server) (L75 c) [ra, rb]
     = ([Connection_handler server c (connection_handler_context server), Free c], Goes L67)
   \<and> (i < length (workers s) \<and> \<not> terminated s \<and> workers s ! i = At (L76 c) \<longrightarrow>
        (\<exists>s'. step args s (Run (Pool i) e) = Some s'
           \<and> open_fds s' = open_fds s
           \<and> connections s' = (connections s)(c := None)))
   \<and> (i < length (workers s) \<and> \<not> terminated s \<and> workers s ! i = In_handler (L75 c)
        \<and> connections s c = Some connection \<longrightarrow>
        (\<exists>s'. run args s [Handler_returns i uses, Run (Pool i) e] = Some s'
           \<and> workers s' ! i = At L67
           \<and> connections s' = (connections s)(c := None)
           \<and> open_fds s'
               = (if Api_close \<in> set uses then open_fds s - {id_field connection}
                  else open_fds s)))"
  by (simp add: step_def thread_step_def handler_done_def handler_io_effect)

theorem free_leaves_the_socket_open_witness:
  "(\<exists>s'. run (example_args 1) stalled_state
            [Handler_returns 0 [Api_read (Some 7) 16 5, Api_write (Some 7) 5 5],
             Run (Pool 0) no_env] = Some s'
         \<and> workers s' ! 0 = At L67
         \<and> connections s' 100 = None
         \<and> 4 \<in> open_fds s')
   \<and> (\<exists>s'. run (example_args 1) stalled_state
            [Handler_returns 0 [Api_read (Some 7) 16 5, Api_close], Run (Pool 0) no_env] = Some s'
         \<and> connections s' 100 = None
         \<and> 4 \<notin> open_fds s')
   \<and> (\<exists>s'. step (example_args 1) returned_state (Run (Pool 0) no_env) = Some s'
         \<and> open_fds s' = open_fds returned_state
         \<and> connections s' = (connections returned_state)(100 := None))"
proof -
  have f: "workers stalled_state = [In_handler (L75 100)]" "\<not> terminated stalled_state"
    "connections stalled_state 100 = Some \<lparr>id_field = 4\<rparr>"
    unfolding stalled_state_def by code_simp+
  have o: "4 \<in> open_fds stalled_state"
    unfolding stalled_state_def by code_simp
  from free_leaves_the_socket_open [where s = stalled_state and i = 0 and c = 100
      and connection = "\<lparr>id_field = 4\<rparr>" and args = "example_args 1" and e = no_env
      and uses = "[Api_read (Some 7) 16 5, Api_write (Some 7) 5 5]"] f o
  have 1: "\<exists>s'. run (example_args 1) stalled_state
            [Handler_returns 0 [Api_read (Some 7) 16 5, Api_write (Some 7) 5 5],
             Run (Pool 0) no_env] = Some s'
         \<and> workers s' ! 0 = At L67
         \<and> connections s' 100 = None
         \<and> 4 \<in> open_fds s'"
    by auto
  from free_leaves_the_socket_open [where s = stalled_state and i = 0 and c = 100
      and connection = "\<lparr>id_field = 4\<rparr>" and args = "example_args 1" and e = no_env
      and uses = "[Api_read (Some 7) 16 5, Api_close]"] f
  have 2: "\<exists>s'. run (example_args 1) stalled_state
            [Handler_returns 0 [Api_read (Some 7) 16 5, Api_close], Run (Pool 0) no_env] = Some s'
         \<and> connections s' 100 = None
         \<and> 4 \<notin> open_fds s'"
    by auto
  have g: "workers returned_state = [At (L76 100)]" "\<not> terminated returned_state"
    unfolding returned_state_def by code_simp+
  from free_leaves_the_socket_open [where s = returned_state and i = 0 and c = 100
      and args = "example_args 1" and e = no_env] g
  have 3: "\<exists>s'. step (example_args 1) returned_state (Run (Pool 0) no_env) = Some s'
         \<and> open_fds s' = open_fds returned_state
         \<and> connections s' = (connections returned_state)(100 := None)"
    by simp
  from 1 2 3 show ?thesis
    by blast
qed

section \<open>Every connection reaches a handler once\<close>

lemma served_count:
  assumes "invariant args s" and "served s"
  shows "count_list (map snd (dispatched s)) c = count_list (enqueued s) c"
proof -
  from assms(2) have "(\<Sum>i<length (workers s). count_list (pending (workers s ! i)) c) = 0"
    by (simp add: served_def list_all_length)
  with accounted_for [OF assms(1), of c] assms(2) show ?thesis
    by (simp add: served_def)
qed

lemma behind_the_handlers:
  assumes inv: "invariant args s" and busy: "list_all in_handler (workers s)"
    and queue: "pool_queue s \<noteq> []" and st: "step args s ch = Some s'"
  shows "(\<exists>i uses. ch = Handler_returns i uses)
    \<or> (\<exists>i uses data n. ch = Handler_killed i uses data n)
    \<or> ((\<exists>e. ch = Run Main e) \<and> list_all in_handler (workers s')
        \<and> (\<exists>zs. pool_queue s' = pool_queue s @ zs)
        \<and> dequeued s' = dequeued s \<and> dispatched s' = dispatched s)"
proof (cases ch)
  case (Run t e)
  show ?thesis
  proof (cases t)
    case Main
    from inv have pool: "pool_inv args s" and "queue_inv s"
      by (simp_all add: invariant_def)
    with queue have nc: "\<not> in_create (main s)"
      by (auto simp: queue_inv_def)
    from Run Main st have "step args s (Run Main e) = Some s'"
      by simp
    with pool have "list_all in_handler (workers s')
        \<and> (\<exists>zs. pool_queue s' = pool_queue s @ zs)
        \<and> dequeued s' = dequeued s \<and> dispatched s' = dispatched s"
    proof (cases rule: main_step_cases)
      case (signal server k)
      with busy have "in_handler (workers s ! k)"
        by (simp add: list_all_length)
      with signal(3) show ?thesis
        by (cases "workers s ! k") simp_all
    qed (use busy nc in simp_all)
    with Run Main show ?thesis
      by simp
  next
    case (Pool i)
    with Run st have s: "step args s (Run (Pool i) e) = Some s'"
      by simp
    then have "i < length (workers s)"
      by (rule step_bounds(2)) simp
    with busy have "in_handler (workers s ! i)"
      by (simp add: list_all_length)
    with s show ?thesis
      by (cases rule: worker_step_cases) simp_all
  qed
next
  case (Spurious_wakeup i)
  with st have s: "step args s (Spurious_wakeup i) = Some s'"
    by simp
  then have "i < length (workers s)"
    by (rule step_bounds(3)) simp
  with busy have "in_handler (workers s ! i)"
    by (simp add: list_all_length)
  with s show ?thesis
    by (cases rule: wakeup_step_cases) simp_all
next
  case (Handler_returns i uses)
  then show ?thesis
    by simp
next
  case (Handler_killed i uses data n)
  then show ?thesis
    by simp
qed

text \<open>
  Claim C1, as the code has it. In every state of the process, with any number of
  workers and for any connections accepted:
  \<^item> the handles enqueued are, in order, the handles dequeued so far followed by the
    handles in the queue: a handle leaves the queue by one dequeue, and none is lost;
  \<^item> what a worker has dequeued is what it has passed to the handler, in the same
    order, followed by the handle it is about to pass, if any; only workers dequeue and
    call the handler;
  \<^item> so every enqueue of a handle is accounted for exactly once: by an invocation of
    the handler, by a worker between its dequeue and its call of the handler, or by a
    place in the queue;
  \<^item> no structure is used or released by a thread that does not own it;
  \<^item> no wakeup is lost: while a worker is blocked on the condition variable, there is
    for every handle in the queue a worker of its own that is awake, holds no handle and
    is on its way to a dequeue, the handle that the main thread is about to signal
    excepted;
  \<^item> with a handle in the queue and the process running, a worker can move, or a
    handler can return, or the main thread is between its lock and its unlock and can
    move: the process is never stuck on a queued handle;
  \<^item> along any run of the process, whatever the main thread and the environment do, as
    long as a handle queued at the start is still queued, the workers have made at most
    \<open>9 N + 6 k\<close> moves (returns of handlers counted), \<open>N\<close> the number of workers and
    \<open>k\<close> the number of dequeues made meanwhile; and the handle at place \<open>k\<close> of the
    queue is the one that the dequeue number \<open>k\<close> from there takes;
  \<^item> so, in every run without end in which the workers move again and again, every
    handle in the queue is dequeued;
  \<^item> a worker that has dequeued a handle passes it to the handler by its next moves,
    the unlock and the call, which it can always make, and it stays where it is until it
    moves;
  \<^item> as long as the process runs and there is a worker, some schedule of moves of the
    workers, returns of handlers and moves of the main thread between its lock and its
    unlock, with no new connection and no spurious wakeup, leads to a state in which
    every handle enqueued has been passed to a handler exactly once;
  \<^item> while every worker is inside a handler and no handler returns, only the main
    thread moves, and the handles in the queue stay there.
\<close>

theorem dispatched_exactly_once:
  assumes "reachable args s"
  shows "enqueued s = map snd (dequeued s) @ pool_queue s
    \<and> (\<forall>i < length (workers s).
          by_thread (Pool i) (dequeued s)
            = by_thread (Pool i) (dispatched s) @ pending (workers s ! i))
    \<and> list_all (\<lambda>x. is_worker (length (workers s)) (fst x)) (dequeued s)
    \<and> list_all (\<lambda>x. is_worker (length (workers s)) (fst x)) (dispatched s)
    \<and> count_list (enqueued s) c
        = count_list (map snd (dispatched s)) c
          + (\<Sum>i<length (workers s). count_list (pending (workers s ! i)) c)
          + count_list (pool_queue s) c
    \<and> \<not> misuse s
    \<and> (list_ex is_blocked (workers s) \<longrightarrow>
          length (pool_queue s)
            \<le> length (filter seeking (workers s)) + (if signalling (main s) then 1 else 0))
    \<and> (\<not> terminated s \<and> workers s \<noteq> [] \<and> pool_queue s \<noteq> [] \<longrightarrow>
          (\<exists>i e s'. step args s (Run (Pool i) e) = Some s')
          \<or> (\<exists>i s'. step args s (Handler_returns i []) = Some s')
          \<or> (main_holds (main s) \<and> (\<exists>e s'. step args s (Run Main e) = Some s')))
    \<and> (run args s chs = Some t
          \<and> length (dequeued t) < length (dequeued s) + length (pool_queue s) \<longrightarrow>
          length (filter pool_move chs)
            \<le> 9 * length (workers s) + 6 * (length (dequeued t) - length (dequeued s)))
    \<and> (run args s chs = Some t \<and> k < length (pool_queue s)
          \<and> length (dequeued s) + k < length (dequeued t) \<longrightarrow>
          snd (dequeued t ! (length (dequeued s) + k)) = pool_queue s ! k)
    \<and> (trace 0 = s \<and> (\<forall>n. step args (trace n) (sched n) = Some (trace (Suc n)))
          \<and> (\<forall>n. \<exists>m\<ge>n. pool_move (sched m)) \<and> k < length (pool_queue s) \<longrightarrow>
          (\<exists>m. length (dequeued s) + k < length (dequeued (trace m))))
    \<and> (j < length (workers s) \<and> \<not> terminated s \<and> workers s ! j = At (L73 (Some h)) \<longrightarrow>
          (\<exists>s'. run args s [Run (Pool j) e, Run (Pool j) e] = Some s'
             \<and> dispatched s' = dispatched s @ [(Pool j, h)]))
    \<and> (j < length (workers s) \<and> \<not> terminated s \<and> workers s ! j = At (L75 h) \<longrightarrow>
          (\<exists>s'. step args s (Run (Pool j) e) = Some s'
             \<and> dispatched s' = dispatched s @ [(Pool j, h)]))
    \<and> (j < length (workers s) \<and> workers s ! j = At pc \<and> run args s chs = Some t
          \<and> \<not> list_ex (moves_of j) chs \<longrightarrow>
          j < length (workers t) \<and> workers t ! j = At pc)
    \<and> (\<not> terminated s \<and> workers s \<noteq> [] \<longrightarrow>
          (\<exists>s'. leads args s s' \<and> served s'
             \<and> take (length (enqueued s)) (enqueued s') = enqueued s
             \<and> (\<forall>d. count_list (map snd (dispatched s')) d = count_list (enqueued s') d)))
    \<and> (list_all in_handler (workers s) \<and> pool_queue s \<noteq> [] \<and> step args s ch = Some s' \<longrightarrow>
          (\<exists>i uses. ch = Handler_returns i uses)
          \<or> (\<exists>i uses data n. ch = Handler_killed i uses data n)
          \<or> ((\<exists>e. ch = Run Main e) \<and> list_all in_handler (workers s')
              \<and> (\<exists>zs. pool_queue s' = pool_queue s @ zs)
              \<and> dequeued s' = dequeued s \<and> dispatched s' = dispatched s))"
proof -
  from assms have inv: "invariant args s"
    by (rule reachable_invariant)
  then have 1: "enqueued s = map snd (dequeued s) @ pool_queue s"
    by (simp add: invariant_def queue_inv_def)
  from inv have 2: "\<forall>i < length (workers s).
          by_thread (Pool i) (dequeued s)
            = by_thread (Pool i) (dispatched s) @ pending (workers s ! i)"
    and 3: "list_all (\<lambda>x. is_worker (length (workers s)) (fst x)) (dequeued s)"
    and 4: "list_all (\<lambda>x. is_worker (length (workers s)) (fst x)) (dispatched s)"
    by (simp_all add: invariant_def dispatch_inv_def)
  note 5 = accounted_for [OF inv, of c]
  from inv have 6: "\<not> misuse s"
    by (simp add: invariant_def)
  from inv have 7: "list_ex is_blocked (workers s) \<longrightarrow>
          length (pool_queue s)
            \<le> length (filter seeking (workers s)) + (if signalling (main s) then 1 else 0)"
    by (simp add: invariant_def wakeup_inv_def)
  have 8: "\<not> terminated s \<and> workers s \<noteq> [] \<and> pool_queue s \<noteq> [] \<longrightarrow>
          (\<exists>i e s'. step args s (Run (Pool i) e) = Some s')
          \<or> (\<exists>i s'. step args s (Handler_returns i []) = Some s')
          \<or> (main_holds (main s) \<and> (\<exists>e s'. step args s (Run Main e) = Some s'))"
    using someone_moves [OF inv] by blast
  have 9: "run args s chs = Some t
          \<and> length (dequeued t) < length (dequeued s) + length (pool_queue s) \<longrightarrow>
          length (filter pool_move chs)
            \<le> 9 * length (workers s) + 6 * (length (dequeued t) - length (dequeued s))"
    using bounded_wait [OF inv] by blast
  have 10: "run args s chs = Some t \<and> k < length (pool_queue s)
          \<and> length (dequeued s) + k < length (dequeued t) \<longrightarrow>
          snd (dequeued t ! (length (dequeued s) + k)) = pool_queue s ! k"
    using dequeued_next [OF inv] by blast
  have 11: "\<not> terminated s \<and> workers s \<noteq> [] \<longrightarrow>
          (\<exists>s'. leads args s s' \<and> served s'
             \<and> take (length (enqueued s)) (enqueued s') = enqueued s
             \<and> (\<forall>d. count_list (map snd (dispatched s')) d = count_list (enqueued s') d))"
  proof
    assume "\<not> terminated s \<and> workers s \<noteq> []"
    with can_be_served [OF inv] obtain s' where s': "leads args s s'" "served s'"
      by blast
    from inv s'(1) have "invariant args s'"
      by (rule leads_invariant)
    with s' inv show "\<exists>s'. leads args s s' \<and> served s'
             \<and> take (length (enqueued s)) (enqueued s') = enqueued s
             \<and> (\<forall>d. count_list (map snd (dispatched s')) d = count_list (enqueued s') d)"
      by (blast intro: leads_enqueued served_count)
  qed
  have 12: "list_all in_handler (workers s) \<and> pool_queue s \<noteq> [] \<and> step args s ch = Some s' \<longrightarrow>
          (\<exists>i uses. ch = Handler_returns i uses)
          \<or> (\<exists>i uses data n. ch = Handler_killed i uses data n)
          \<or> ((\<exists>e. ch = Run Main e) \<and> list_all in_handler (workers s')
              \<and> (\<exists>zs. pool_queue s' = pool_queue s @ zs)
              \<and> dequeued s' = dequeued s \<and> dispatched s' = dispatched s)"
    using behind_the_handlers [OF inv] by blast
  have 13: "j < length (workers s) \<and> \<not> terminated s \<and> workers s ! j = At (L73 (Some h)) \<longrightarrow>
          (\<exists>s'. run args s [Run (Pool j) e, Run (Pool j) e] = Some s'
             \<and> dispatched s' = dispatched s @ [(Pool j, h)])"
    by (simp add: step_def thread_step_def)
  have 14: "j < length (workers s) \<and> \<not> terminated s \<and> workers s ! j = At (L75 h) \<longrightarrow>
          (\<exists>s'. step args s (Run (Pool j) e) = Some s'
             \<and> dispatched s' = dispatched s @ [(Pool j, h)])"
    by (simp add: step_def thread_step_def)
  have 15: "trace 0 = s \<and> (\<forall>n. step args (trace n) (sched n) = Some (trace (Suc n)))
          \<and> (\<forall>n. \<exists>m\<ge>n. pool_move (sched m)) \<and> k < length (pool_queue s) \<longrightarrow>
          (\<exists>m. length (dequeued s) + k < length (dequeued (trace m)))"
  proof
    assume a: "trace 0 = s \<and> (\<forall>n. step args (trace n) (sched n) = Some (trace (Suc n)))
          \<and> (\<forall>n. \<exists>m\<ge>n. pool_move (sched m)) \<and> k < length (pool_queue s)"
    with inv have "invariant args (trace 0)" "k < length (pool_queue (trace 0))"
      by simp_all
    moreover from a have "\<forall>n. step args (trace n) (sched n) = Some (trace (Suc n))"
      "\<forall>n. \<exists>m\<ge>n. pool_move (sched m)"
      by simp_all
    ultimately have "\<exists>m. length (dequeued (trace 0)) + k < length (dequeued (trace m))"
      by (intro eventually_dequeued [where args = args and c = sched])
    with a show "\<exists>m. length (dequeued s) + k < length (dequeued (trace m))"
      by simp
  qed
  have 16: "j < length (workers s) \<and> workers s ! j = At pc \<and> run args s chs = Some t
          \<and> \<not> list_ex (moves_of j) chs \<longrightarrow>
          j < length (workers t) \<and> workers t ! j = At pc"
    using stays_put [OF inv] by blast
  from 1 2 3 4 5 6 7 8 9 10 11 12 13 14 15 16 show ?thesis
    by blast
qed

theorem dispatched_exactly_once_witness:
  "enqueued stalled_state = map snd (dequeued stalled_state) @ pool_queue stalled_state
   \<and> count_list (enqueued stalled_state) 101
       = count_list (map snd (dispatched stalled_state)) 101
         + (\<Sum>i<length (workers stalled_state).
              count_list (pending (workers stalled_state ! i)) 101)
         + count_list (pool_queue stalled_state) 101
   \<and> \<not> misuse stalled_state
   \<and> workers woken_pair_state = [Woken L70, Blocked L70]
   \<and> pool_queue woken_pair_state = [100]
   \<and> length (pool_queue woken_pair_state) \<le> length (filter seeking (workers woken_pair_state))
   \<and> (\<exists>s'. step (example_args 1) stalled_state (Handler_returns 0 []) = Some s')
   \<and> length (filter pool_move [Handler_returns 0 [], Run (Pool 0) no_env])
       \<le> 9 * length (workers stalled_state)
   \<and> snd (dequeued (the (step (example_args 1) dequeuing_state (Run (Pool 0) no_env))) ! 0) = 100
   \<and> (\<exists>s'. leads (example_args 1) stalled_state s' \<and> served s'
          \<and> take (length (enqueued stalled_state)) (enqueued s') = enqueued stalled_state
          \<and> (\<forall>d. count_list (map snd (dispatched s')) d = count_list (enqueued s') d))
   \<and> list_all in_handler
         (workers (the (step (example_args 1) stalled_state (Run Main no_env))))
   \<and> dequeued (the (step (example_args 1) stalled_state (Run Main no_env)))
       = dequeued stalled_state
   \<and> (\<exists>s'. run (example_args 1) holding_state [Run (Pool 0) no_env, Run (Pool 0) no_env]
            = Some s'
          \<and> dispatched s' = dispatched holding_state @ [(Pool 0, 100)])
   \<and> (\<exists>s'. step (example_args 1) calling_state (Run (Pool 0) no_env) = Some s'
          \<and> dispatched s' = dispatched calling_state @ [(Pool 0, 100)])
   \<and> workers (the (step (example_args 1) calling_state (Run Main no_env))) ! 0 = At (L75 100)
   \<and> (\<exists>m. length (dequeued dequeuing_state)
            < length (dequeued (follow (example_args 1) dequeuing_state patrol m)))"
proof -
  have r: "reachable (example_args 1) stalled_state"
    using stalled_run by (rule run_reachable)
  have f: "\<not> terminated stalled_state" "workers stalled_state \<noteq> []"
    "pool_queue stalled_state \<noteq> []" "list_all in_handler (workers stalled_state)"
    "\<not> main_holds (main stalled_state)"
    unfolding stalled_state_def by code_simp+
  have "step (example_args 1) stalled_state (Run Main no_env) \<noteq> None"
    unfolding stalled_state_def by code_simp
  then have s: "step (example_args 1) stalled_state (Run Main no_env)
      = Some (the (step (example_args 1) stalled_state (Run Main no_env)))"
    by simp
  let ?chs = "[Handler_returns 0 [], Run (Pool 0) no_env]"
  have "run (example_args 1) stalled_state ?chs \<noteq> None"
    unfolding stalled_state_def by code_simp
  then have c: "run (example_args 1) stalled_state ?chs
      = Some (the (run (example_args 1) stalled_state ?chs))"
    by (rule run_the)
  have d: "length (dequeued (the (run (example_args 1) stalled_state ?chs)))
      < length (dequeued stalled_state) + length (pool_queue stalled_state)"
    unfolding stalled_state_def by code_simp
  have w: "step (example_args 1) stalled_state (Run (Pool 0) no_env) = None"
    unfolding stalled_state_def by code_simp
  note t = dispatched_exactly_once [OF r, where c = 101 and ch = "Run Main no_env"
      and s' = "the (step (example_args 1) stalled_state (Run Main no_env))"
      and chs = ?chs and t = "the (run (example_args 1) stalled_state ?chs)" and k = 0]
  from t have 1: "enqueued stalled_state
      = map snd (dequeued stalled_state) @ pool_queue stalled_state"
    by blast
  from t have 2: "count_list (enqueued stalled_state) 101
       = count_list (map snd (dispatched stalled_state)) 101
         + (\<Sum>i<length (workers stalled_state).
              count_list (pending (workers stalled_state ! i)) 101)
         + count_list (pool_queue stalled_state) 101"
    by blast
  from t have 3: "\<not> misuse stalled_state"
    by blast
  from t f have "(\<exists>i e s'. step (example_args 1) stalled_state (Run (Pool i) e) = Some s')
      \<or> (\<exists>i s'. step (example_args 1) stalled_state (Handler_returns i []) = Some s')"
    by blast
  moreover have "step (example_args 1) stalled_state (Handler_returns 0 []) \<noteq> None"
    unfolding stalled_state_def by code_simp
  ultimately have 4: "\<exists>s'. step (example_args 1) stalled_state (Handler_returns 0 []) = Some s'"
    by auto
  from t c d have "length (filter pool_move ?chs)
      \<le> 9 * length (workers stalled_state)
        + 6 * (length (dequeued (the (run (example_args 1) stalled_state ?chs)))
               - length (dequeued stalled_state))"
    by blast
  moreover have "length (dequeued (the (run (example_args 1) stalled_state ?chs)))
      - length (dequeued stalled_state) = 0"
    unfolding stalled_state_def by code_simp
  ultimately have 5: "length (filter pool_move ?chs) \<le> 9 * length (workers stalled_state)"
    by simp
  from t f have 6: "\<exists>s'. leads (example_args 1) stalled_state s' \<and> served s'
          \<and> take (length (enqueued stalled_state)) (enqueued s') = enqueued stalled_state
          \<and> (\<forall>d. count_list (map snd (dispatched s')) d = count_list (enqueued s') d)"
    by blast
  from t f s have 7: "list_all in_handler
         (workers (the (step (example_args 1) stalled_state (Run Main no_env))))
     \<and> dequeued (the (step (example_args 1) stalled_state (Run Main no_env)))
       = dequeued stalled_state"
    by auto
  have "run (example_args 2) init woken_pair_schedule = Some woken_pair_state"
    unfolding woken_pair_state_def by (rule run_the) code_simp
  then have p: "reachable (example_args 2) woken_pair_state"
    by (rule run_reachable)
  have g: "workers woken_pair_state = [Woken L70, Blocked L70]"
    "pool_queue woken_pair_state = [100]" "\<not> signalling (main woken_pair_state)"
    unfolding woken_pair_state_def by code_simp+
  then have "list_ex is_blocked (workers woken_pair_state)"
    by simp
  with dispatched_exactly_once [OF p] g(3)
  have 8: "length (pool_queue woken_pair_state)
      \<le> length (filter seeking (workers woken_pair_state))"
    by simp
  let ?u = "the (step (example_args 1) dequeuing_state (Run (Pool 0) no_env))"
  have "run (example_args 1) init (boot 1 @ accepts 4 100 0 @ [Run (Pool 0) no_env])
      = Some dequeuing_state"
    unfolding dequeuing_state_def by (rule run_the) code_simp
  then have q: "reachable (example_args 1) dequeuing_state"
    by (rule run_reachable)
  have "step (example_args 1) dequeuing_state (Run (Pool 0) no_env) \<noteq> None"
    unfolding dequeuing_state_def by code_simp
  then have h: "run (example_args 1) dequeuing_state [Run (Pool 0) no_env] = Some ?u"
    by auto
  have j: "pool_queue dequeuing_state = [100]" "dequeued dequeuing_state = []"
    "length (dequeued ?u) = 1"
    unfolding dequeuing_state_def by code_simp+
  from dispatched_exactly_once [OF q, where chs = "[Run (Pool 0) no_env]" and t = ?u
      and k = 0] h j
  have 9: "snd (dequeued ?u ! 0) = 100"
    by simp
  have "run (example_args 1) init
      (boot 1 @ accepts 4 100 0 @ [Run (Pool 0) no_env, Run (Pool 0) no_env])
      = Some holding_state"
    unfolding holding_state_def by (rule run_the) code_simp
  then have v: "reachable (example_args 1) holding_state"
    by (rule run_reachable)
  have x: "workers holding_state = [At (L73 (Some 100))]" "\<not> terminated holding_state"
    unfolding holding_state_def by code_simp+
  from dispatched_exactly_once [OF v, where j = 0 and h = 100 and e = no_env] x
  have 10: "\<exists>s'. run (example_args 1) holding_state [Run (Pool 0) no_env, Run (Pool 0) no_env]
            = Some s'
          \<and> dispatched s' = dispatched holding_state @ [(Pool 0, 100)]"
    by simp
  have "run (example_args 1) init
      (boot 1 @ accepts 4 100 0
       @ [Run (Pool 0) no_env, Run (Pool 0) no_env, Run (Pool 0) no_env])
      = Some calling_state"
    unfolding calling_state_def by (rule run_the) code_simp
  then have y: "reachable (example_args 1) calling_state"
    by (rule run_reachable)
  have z: "workers calling_state = [At (L75 100)]" "\<not> terminated calling_state"
    unfolding calling_state_def by code_simp+
  from dispatched_exactly_once [OF y, where j = 0 and h = 100 and e = no_env] z
  have 11: "\<exists>s'. step (example_args 1) calling_state (Run (Pool 0) no_env) = Some s'
          \<and> dispatched s' = dispatched calling_state @ [(Pool 0, 100)]"
    by simp
  let ?w = "the (step (example_args 1) calling_state (Run Main no_env))"
  have "step (example_args 1) calling_state (Run Main no_env) \<noteq> None"
    unfolding calling_state_def by code_simp
  then have "run (example_args 1) calling_state [Run Main no_env] = Some ?w"
    by auto
  with dispatched_exactly_once [OF y, where j = 0 and pc = "L75 100"
      and chs = "[Run Main no_env]" and t = ?w] z
  have 12: "workers ?w ! 0 = At (L75 100)"
    by simp
  have "follow (example_args 1) dequeuing_state patrol 0 = dequeuing_state"
    by simp
  with dispatched_exactly_once [OF q, where k = 0 and sched = patrol
      and trace = "follow (example_args 1) dequeuing_state patrol"]
    patrol_steps patrol_fair j(1)
  have 13: "\<exists>m. length (dequeued dequeuing_state)
      < length (dequeued (follow (example_args 1) dequeuing_state patrol m))"
    by (simp del: follow.simps)
  from 1 2 3 4 5 6 7 8 9 10 11 12 13 g(1,2) show ?thesis
    by blast
qed

theorem queued_behind_a_handler:
  "run (example_args 1) init stalled_schedule = Some stalled_state
   \<and> enqueued stalled_state = [100, 101]
   \<and> dequeued stalled_state = [(Pool 0, 100)]
   \<and> dispatched stalled_state = [(Pool 0, 100)]
   \<and> pool_queue stalled_state = [101]
   \<and> workers stalled_state = [In_handler (L75 100)]
   \<and> \<not> terminated stalled_state
   \<and> step (example_args 1) stalled_state (Run (Pool 0) no_env) = None
   \<and> step (example_args 1) stalled_state (Spurious_wakeup 0) = None
   \<and> pool_queue (the (run (example_args 1) stalled_state (accepts 6 102 0))) = [101, 102]
   \<and> dispatched (the (run (example_args 1) stalled_state (accepts 6 102 0))) = [(Pool 0, 100)]"
proof -
  have "run (example_args 1) init stalled_schedule = Some stalled_state"
    unfolding stalled_state_def by (rule run_the) code_simp
  moreover have "enqueued stalled_state = [100, 101]"
    unfolding stalled_state_def by code_simp
  moreover have "dequeued stalled_state = [(Pool 0, 100)]"
    unfolding stalled_state_def by code_simp
  moreover have "dispatched stalled_state = [(Pool 0, 100)]"
    unfolding stalled_state_def by code_simp
  moreover have "pool_queue stalled_state = [101]"
    unfolding stalled_state_def by code_simp
  moreover have "workers stalled_state = [In_handler (L75 100)]"
    unfolding stalled_state_def by code_simp
  moreover have "\<not> terminated stalled_state"
    unfolding stalled_state_def by code_simp
  moreover have "step (example_args 1) stalled_state (Run (Pool 0) no_env) = None"
    unfolding stalled_state_def by code_simp
  moreover have "step (example_args 1) stalled_state (Spurious_wakeup 0) = None"
    unfolding stalled_state_def by code_simp
  moreover have "pool_queue (the (run (example_args 1) stalled_state (accepts 6 102 0)))
      = [101, 102]"
    unfolding stalled_state_def by code_simp
  moreover have "dispatched (the (run (example_args 1) stalled_state (accepts 6 102 0)))
      = [(Pool 0, 100)]"
    unfolding stalled_state_def by code_simp
  ultimately show ?thesis
    by blast
qed

section \<open>The order of the connections\<close>

lemma single_worker:
  assumes "list_all (\<lambda>x. is_worker 1 (fst x)) xs"
  shows "by_thread (Pool 0) xs = map snd xs"
  using assms
proof (induction xs)
  case Nil
  show ?case
    by (simp add: by_thread_def)
next
  case (Cons x xs)
  then have "fst x = Pool 0"
    by (cases "fst x") simp_all
  with Cons show ?case
    by (simp add: by_thread_def)
qed

lemma no_worker:
  assumes "list_all (\<lambda>x. is_worker 0 (fst x)) xs"
  shows "xs = []"
proof (cases xs)
  case (Cons x ys)
  with assms show ?thesis
    by (cases "fst x") simp_all
qed simp

text \<open>
  Claim C4, as the code has it. In every state of the process:
  \<^item> the handles dequeued so far are, in order, the first handles enqueued: a handle
    enqueued before another is dequeued before it, whichever workers dequeue them;
  \<^item> a worker passes to the handler the handles that it has dequeued, in the order in
    which it has dequeued them;
  \<^item> with at most one worker, the handles passed to the handler are, in order, the
    first handles enqueued;
  \<^item> whichever worker makes a dequeue on a queue that is not empty takes the handle at
    the front.
  The call of the handler comes after the unlock: with two workers or more, the
  invocations of the handler by different workers are not ordered.
\<close>

theorem dequeued_in_accept_order:
  assumes "reachable args s"
  shows "map snd (dequeued s) = take (length (dequeued s)) (enqueued s)
    \<and> (\<forall>i < length (workers s).
          by_thread (Pool i) (dispatched s)
            = take (length (by_thread (Pool i) (dispatched s))) (by_thread (Pool i) (dequeued s)))
    \<and> (length (workers s) \<le> 1 \<longrightarrow>
          map snd (dispatched s) = take (length (dispatched s)) (enqueued s))
    \<and> (i < length (workers s) \<and> \<not> terminated s \<and> pool_queue s = c # q
          \<and> (workers s ! i = At L68 \<or> workers s ! i = At L71) \<longrightarrow>
          (\<exists>s'. step args s (Run (Pool i) e) = Some s'
             \<and> pool_queue s' = q \<and> dequeued s' = dequeued s @ [(Pool i, c)]))"
proof -
  from assms have inv: "invariant args s"
    by (rule reachable_invariant)
  then have q: "enqueued s = map snd (dequeued s) @ pool_queue s"
    by (simp add: invariant_def queue_inv_def)
  from inv have d: "\<forall>i < length (workers s).
          by_thread (Pool i) (dequeued s)
            = by_thread (Pool i) (dispatched s) @ pending (workers s ! i)"
    and wq: "list_all (\<lambda>x. is_worker (length (workers s)) (fst x)) (dequeued s)"
    and wd: "list_all (\<lambda>x. is_worker (length (workers s)) (fst x)) (dispatched s)"
    by (simp_all add: invariant_def dispatch_inv_def)
  from q have 1: "map snd (dequeued s) = take (length (dequeued s)) (enqueued s)"
    by simp
  from d have 2: "\<forall>i < length (workers s).
          by_thread (Pool i) (dispatched s)
            = take (length (by_thread (Pool i) (dispatched s))) (by_thread (Pool i) (dequeued s))"
    by simp
  have 3: "map snd (dispatched s) = take (length (dispatched s)) (enqueued s)"
    if "length (workers s) \<le> 1"
  proof (cases "length (workers s) = 0")
    case True
    with wd have "dispatched s = []"
      by (simp add: no_worker)
    then show ?thesis
      by simp
  next
    case False
    with that have one: "length (workers s) = 1"
      by linarith
    with wq wd have "by_thread (Pool 0) (dequeued s) = map snd (dequeued s)"
      "by_thread (Pool 0) (dispatched s) = map snd (dispatched s)"
      by (simp_all add: single_worker)
    with d one have "map snd (dequeued s) = map snd (dispatched s) @ pending (workers s ! 0)"
      by simp
    with q have "enqueued s = map snd (dispatched s) @ pending (workers s ! 0) @ pool_queue s"
      by simp
    then show ?thesis
      by simp
  qed
  have 4: "i < length (workers s) \<and> \<not> terminated s \<and> pool_queue s = c # q
          \<and> (workers s ! i = At L68 \<or> workers s ! i = At L71) \<longrightarrow>
          (\<exists>s'. step args s (Run (Pool i) e) = Some s'
             \<and> pool_queue s' = q \<and> dequeued s' = dequeued s @ [(Pool i, c)])"
    by (auto simp: step_def thread_step_def)
  from 1 2 3 4 show ?thesis
    by blast
qed

theorem dequeued_in_accept_order_witness:
  "map snd (dequeued stalled_state) = take (length (dequeued stalled_state)) (enqueued stalled_state)
   \<and> map snd (dispatched stalled_state)
       = take (length (dispatched stalled_state)) (enqueued stalled_state)
   \<and> (\<exists>s'. step (example_args 1) dequeuing_state (Run (Pool 0) no_env) = Some s'
          \<and> pool_queue s' = [] \<and> dequeued s' = dequeued dequeuing_state @ [(Pool 0, 100)])"
proof -
  have "run (example_args 1) init stalled_schedule = Some stalled_state"
    unfolding stalled_state_def by (rule run_the) code_simp
  then have r: "reachable (example_args 1) stalled_state"
    by (rule run_reachable)
  have "length (workers stalled_state) \<le> 1"
    unfolding stalled_state_def by code_simp
  with dequeued_in_accept_order [OF r]
  have 1: "map snd (dequeued stalled_state)
      = take (length (dequeued stalled_state)) (enqueued stalled_state)
    \<and> map snd (dispatched stalled_state)
      = take (length (dispatched stalled_state)) (enqueued stalled_state)"
    by blast
  have "run (example_args 1) init (boot 1 @ accepts 4 100 0 @ [Run (Pool 0) no_env])
      = Some dequeuing_state"
    unfolding dequeuing_state_def by (rule run_the) code_simp
  then have q: "reachable (example_args 1) dequeuing_state"
    by (rule run_reachable)
  have f: "workers dequeuing_state = [At L68]" "\<not> terminated dequeuing_state"
    "pool_queue dequeuing_state = [100]"
    unfolding dequeuing_state_def by code_simp+
  from dequeued_in_accept_order [OF q, where i = 0 and c = 100 and q = "[]" and e = no_env] f
  have 2: "\<exists>s'. step (example_args 1) dequeuing_state (Run (Pool 0) no_env) = Some s'
          \<and> pool_queue s' = [] \<and> dequeued s' = dequeued dequeuing_state @ [(Pool 0, 100)]"
    by simp
  from 1 2 show ?thesis
    by blast
qed

theorem handlers_out_of_order:
  "run (example_args 2) init overtaking_schedule = Some overtaking_state
   \<and> enqueued overtaking_state = [100, 101]
   \<and> dequeued overtaking_state = [(Pool 0, 100), (Pool 1, 101)]
   \<and> dispatched overtaking_state = [(Pool 1, 101), (Pool 0, 100)]"
proof -
  have "run (example_args 2) init overtaking_schedule = Some overtaking_state"
    unfolding overtaking_state_def by (rule run_the) code_simp
  moreover have "enqueued overtaking_state = [100, 101]"
    unfolding overtaking_state_def by code_simp
  moreover have "dequeued overtaking_state = [(Pool 0, 100), (Pool 1, 101)]"
    unfolding overtaking_state_def by code_simp
  moreover have "dispatched overtaking_state = [(Pool 1, 101), (Pool 0, 100)]"
    unfolding overtaking_state_def by code_simp
  ultimately show ?thesis
    by blast
qed

end
